theory Spec2Isabelle
  imports Main "HOL-Library.Multiset"
begin

section \<open>JavaScript values\<close>

text \<open>
  The values the library handles: collections, items, keys, constraints and filter
  operands. They are the values of data: no function is among them. Numbers are the
  integers (no fractions, no NaN literal, no infinities); a string is the list of its
  code units, which are those below 256; an array is the list of its elements (no
  holes); an object is an ordinary object, with the prototype \<^verbatim>\<open>Object.prototype\<close>,
  given by the list of its own enumerable string-keyed properties in property order.
  Values carry no identity: two stored items are two objects.
\<close>

datatype jsval =
    JUndefined
  | JNull
  | JBool bool
  | JNum int
  | JStr string
  | JArr "jsval list"
  | JObj "(string \<times> jsval) list"

datatype error = TypeError

subsection \<open>Strings\<close>

text \<open>
  Decimal rendering of a number, as \<^verbatim>\<open>String(n)\<close> gives for an integer (of a
  magnitude below \<open>10\<^sup>2\<^sup>1\<close>, where the exponent notation begins).
\<close>

definition digit_char :: "nat \<Rightarrow> char" where
  "digit_char d = char_of (48 + d)"

fun show_nat :: "nat \<Rightarrow> string" where
  "show_nat n = (if n < 10 then [digit_char n] else show_nat (n div 10) @ [digit_char (n mod 10)])"

declare show_nat.simps [simp del]

definition show_int :: "int \<Rightarrow> string" where
  "show_int i = (if i < 0 then CHR ''-'' # show_nat (nat (- i)) else show_nat (nat i))"

text \<open>\<^verbatim>\<open>xs.join(sep)\<close> on strings that are already rendered.\<close>

fun join_strings :: "string \<Rightarrow> string list \<Rightarrow> string" where
  "join_strings sep [] = []"
| "join_strings sep [x] = x"
| "join_strings sep (x # y # ys) = x @ sep @ join_strings sep (y # ys)"

text \<open>
  \<^verbatim>\<open>String(v)\<close>. Inside \<^verbatim>\<open>Array.prototype.join\<close> an element that is
  \<^verbatim>\<open>undefined\<close> or \<^verbatim>\<open>null\<close> is rendered as the empty string; everywhere else
  they are the words.
\<close>

fun ToString :: "jsval \<Rightarrow> string" where
  "ToString JUndefined = ''undefined''"
| "ToString JNull = ''null''"
| "ToString (JBool b) = (if b then ''true'' else ''false'')"
| "ToString (JNum n) = show_int n"
| "ToString (JStr s) = s"
| "ToString (JArr xs) =
     join_strings '',''
       (map (\<lambda>x. if x = JUndefined \<or> x = JNull then [] else ToString x) xs)"
| "ToString (JObj ps) = ''[object Object]''"

text \<open>
  \<^verbatim>\<open>toLowerCase\<close> and \<^verbatim>\<open>trim\<close> on the code units below 256. The letters A to Z
  and the capital letters of Latin-1 (U+00C0 to U+00DE, but not the multiplication sign
  U+00D7) are folded to the letter 32 places further; every other code unit is left as
  it is. White space is the space, the characters from the tab to the carriage return,
  and the no-break space U+00A0.
\<close>

definition lower_char :: "char \<Rightarrow> char" where
  "lower_char c =
     (let n = (of_char c :: nat)
      in if (65 \<le> n \<and> n \<le> 90) \<or> (192 \<le> n \<and> n \<le> 222 \<and> n \<noteq> 215)
         then char_of (n + 32) else c)"

definition toLowerCase :: "string \<Rightarrow> string" where
  "toLowerCase s = map lower_char s"

definition is_space :: "char \<Rightarrow> bool" where
  "is_space c =
     (let n = (of_char c :: nat) in n = 32 \<or> (9 \<le> n \<and> n \<le> 13) \<or> n = 160)"

definition trim :: "string \<Rightarrow> string" where
  "trim s = rev (dropWhile is_space (rev (dropWhile is_space s)))"

text \<open>
  \<^verbatim>\<open>S.split(sep)\<close> with a string separator and no limit. With the empty separator the
  result is the list of the code units of \<^verbatim>\<open>S\<close> (so the empty list for the empty
  string). Otherwise the string is cut at each occurrence of the separator found from
  left to right, the search resuming after the occurrence; the piece under construction
  is \<open>cur\<close>.
\<close>

function split_from :: "string \<Rightarrow> string \<Rightarrow> string \<Rightarrow> string list" where
  "split_from sep cur [] = [cur]"
| "split_from sep cur (c # cs) =
     (if sep \<noteq> [] \<and> take (length sep) (c # cs) = sep
      then cur # split_from sep [] (drop (length sep) (c # cs))
      else split_from sep (cur @ [c]) cs)"
  by pat_completeness auto
termination
  by (relation "measure (\<lambda>(sep, cur, rest). length rest)") auto

definition split :: "string \<Rightarrow> string \<Rightarrow> string list" where
  "split S sep = (if sep = [] then map (\<lambda>c. [c]) S else split_from sep [] S)"

subsection \<open>Types, truthiness and property reads\<close>

definition typeof :: "jsval \<Rightarrow> string" where
  "typeof v =
     (case v of
        JUndefined \<Rightarrow> ''undefined''
      | JNull \<Rightarrow> ''object''
      | JBool b \<Rightarrow> ''boolean''
      | JNum n \<Rightarrow> ''number''
      | JStr s \<Rightarrow> ''string''
      | JArr xs \<Rightarrow> ''object''
      | JObj ps \<Rightarrow> ''object'')"

definition isArray :: "jsval \<Rightarrow> bool" where
  "isArray v = (case v of JArr xs \<Rightarrow> True | _ \<Rightarrow> False)"

definition ToBoolean :: "jsval \<Rightarrow> bool" where
  "ToBoolean v =
     (case v of
        JUndefined \<Rightarrow> False
      | JNull \<Rightarrow> False
      | JBool b \<Rightarrow> b
      | JNum n \<Rightarrow> n \<noteq> 0
      | JStr s \<Rightarrow> s \<noteq> []
      | JArr xs \<Rightarrow> True
      | JObj ps \<Rightarrow> True)"

text \<open>
  An array index as a property name: the name is the decimal rendering of a position
  inside the array.
\<close>

definition array_index :: "string \<Rightarrow> nat \<Rightarrow> nat option" where
  "array_index k n = find (\<lambda>i. show_nat i = k) [0..<n]"

text \<open>
  The own properties of a value: the elements and the length of an array or a string,
  the properties of an object; a number or a boolean has none.
\<close>

definition own_prop :: "jsval \<Rightarrow> string \<Rightarrow> jsval option" where
  "own_prop v k =
     (case v of
        JStr s \<Rightarrow>
          (case array_index k (length s) of
             Some i \<Rightarrow> Some (JStr [s ! i])
           | None \<Rightarrow> if k = ''length'' then Some (JNum (int (length s))) else None)
      | JArr xs \<Rightarrow>
          (case array_index k (length xs) of
             Some i \<Rightarrow> Some (xs ! i)
           | None \<Rightarrow> if k = ''length'' then Some (JNum (int (length xs))) else None)
      | JObj ps \<Rightarrow> map_of ps k
      | _ \<Rightarrow> None)"

text \<open>
  A read that finds no own property goes on to the prototype of the value:
  \<^verbatim>\<open>Object.prototype\<close> for an object, and \<^verbatim>\<open>Array.prototype\<close>,
  \<^verbatim>\<open>String.prototype\<close>, \<^verbatim>\<open>Number.prototype\<close> or \<^verbatim>\<open>Boolean.prototype\<close> and then
  \<^verbatim>\<open>Object.prototype\<close> for the others. What it finds there is a built-in function
  or, under \<^verbatim>\<open>__proto__\<close>, the prototype object itself: objects that the data cannot
  hold. The names are those of the standard library (ECMAScript 2023, with its
  annex B).
\<close>

definition Object_prototype_methods :: "string list" where
  "Object_prototype_methods =
     [''__defineGetter__'', ''__defineSetter__'', ''hasOwnProperty'', ''__lookupGetter__'',
      ''__lookupSetter__'', ''isPrototypeOf'', ''propertyIsEnumerable'', ''toString'',
      ''valueOf'', ''toLocaleString'']"

definition Array_prototype_methods :: "string list" where
  "Array_prototype_methods =
     [''at'', ''concat'', ''copyWithin'', ''fill'', ''find'', ''findIndex'', ''findLast'',
      ''findLastIndex'', ''lastIndexOf'', ''pop'', ''push'', ''reverse'', ''shift'',
      ''unshift'', ''slice'', ''sort'', ''splice'', ''includes'', ''indexOf'', ''join'',
      ''keys'', ''entries'', ''values'', ''forEach'', ''filter'', ''flat'', ''flatMap'',
      ''map'', ''every'', ''some'', ''reduce'', ''reduceRight'', ''toLocaleString'',
      ''toString'', ''toReversed'', ''toSorted'', ''toSpliced'', ''with'']"

definition String_prototype_methods :: "string list" where
  "String_prototype_methods =
     [''anchor'', ''at'', ''big'', ''blink'', ''bold'', ''charAt'', ''charCodeAt'',
      ''codePointAt'', ''concat'', ''endsWith'', ''fixed'', ''fontcolor'', ''fontsize'',
      ''includes'', ''indexOf'', ''italics'', ''lastIndexOf'', ''link'',
      ''localeCompare'', ''match'', ''matchAll'', ''normalize'', ''padEnd'', ''padStart'',
      ''repeat'', ''replace'', ''replaceAll'', ''search'', ''slice'', ''small'', ''split'',
      ''strike'', ''sub'', ''substr'', ''substring'', ''sup'', ''startsWith'', ''toString'',
      ''toLocaleLowerCase'', ''toLocaleUpperCase'', ''toLowerCase'', ''toUpperCase'',
      ''trim'', ''trimEnd'', ''trimLeft'', ''trimRight'', ''trimStart'', ''valueOf'']"

definition Number_prototype_methods :: "string list" where
  "Number_prototype_methods =
     [''toExponential'', ''toFixed'', ''toLocaleString'', ''toPrecision'', ''toString'',
      ''valueOf'']"

definition Boolean_prototype_methods :: "string list" where
  "Boolean_prototype_methods = [''toString'', ''valueOf'']"

definition inherited_methods :: "jsval \<Rightarrow> string list" where
  "inherited_methods v =
     (case v of
        JBool b \<Rightarrow> Boolean_prototype_methods @ Object_prototype_methods
      | JNum n \<Rightarrow> Number_prototype_methods @ Object_prototype_methods
      | JStr s \<Rightarrow> String_prototype_methods @ Object_prototype_methods
      | JArr xs \<Rightarrow> Array_prototype_methods @ Object_prototype_methods
      | JObj ps \<Rightarrow> Object_prototype_methods
      | _ \<Rightarrow> [])"

definition constructor_name :: "jsval \<Rightarrow> string" where
  "constructor_name v =
     (case v of
        JBool b \<Rightarrow> ''Boolean''
      | JNum n \<Rightarrow> ''Number''
      | JStr s \<Rightarrow> ''String''
      | JArr xs \<Rightarrow> ''Array''
      | _ \<Rightarrow> ''Object'')"

text \<open>
  What such an object converts to when it is joined into a string or compared: a
  built-in function becomes its source text, as V8 prints it;
  \<^verbatim>\<open>Boolean.prototype\<close> is a boolean object holding \<^verbatim>\<open>false\<close>,
  \<^verbatim>\<open>Number.prototype\<close> a number object holding 0, \<^verbatim>\<open>String.prototype\<close> a string
  object holding the empty string, \<^verbatim>\<open>Array.prototype\<close> an empty array.
\<close>

definition native_function :: "string \<Rightarrow> jsval" where
  "native_function name = JStr (''function '' @ name @ ''() { [native code] }'')"

text \<open>
  The name a built-in method goes by: the member name, but \<^verbatim>\<open>trimLeft\<close> and
  \<^verbatim>\<open>trimRight\<close> are the functions \<^verbatim>\<open>trimStart\<close> and \<^verbatim>\<open>trimEnd\<close>.
\<close>

definition method_name :: "string \<Rightarrow> string" where
  "method_name k =
     (if k = ''trimLeft'' then ''trimStart'' else if k = ''trimRight'' then ''trimEnd'' else k)"

definition prototype_primitive :: "jsval \<Rightarrow> jsval" where
  "prototype_primitive v =
     (case v of
        JBool b \<Rightarrow> JBool False
      | JNum n \<Rightarrow> JNum 0
      | JStr s \<Rightarrow> JStr []
      | JArr xs \<Rightarrow> JStr []
      | _ \<Rightarrow> JStr ''[object Object]'')"

definition proto_prop :: "jsval \<Rightarrow> string \<Rightarrow> jsval option" where
  "proto_prop v k =
     (if k = ''constructor'' then Some (native_function (constructor_name v))
      else if k = ''__proto__'' then Some (prototype_primitive v)
      else if k \<in> set (inherited_methods v) then Some (native_function (method_name k))
      else None)"

text \<open>
  What a property read gives: a value of the data, or a built-in object found on the
  prototype chain, \<open>Builtin p\<close>, where \<open>p\<close> is the primitive value it converts to.
  A built-in object is truthy, is strictly equal to no value of the data, and is joined
  and compared through its primitive.
\<close>

datatype propval = Data jsval | Builtin jsval

definition truthy :: "propval \<Rightarrow> bool" where
  "truthy x = (case x of Data v \<Rightarrow> ToBoolean v | Builtin p \<Rightarrow> True)"

definition operand :: "propval \<Rightarrow> jsval" where
  "operand x = (case x of Data v \<Rightarrow> v | Builtin p \<Rightarrow> p)"

text \<open>
  \<^verbatim>\<open>v[key]\<close>. Reading a property of \<^verbatim>\<open>undefined\<close> or \<^verbatim>\<open>null\<close> throws; an own
  property is found first, then the prototype chain; a property found nowhere reads as
  \<^verbatim>\<open>undefined\<close>.
\<close>

definition get_prop :: "jsval \<Rightarrow> jsval \<Rightarrow> error + propval" where
  "get_prop v key =
     (let k = ToString key in
      if v = JUndefined \<or> v = JNull then Inl TypeError
      else case own_prop v k of
             Some x \<Rightarrow> Inr (Data x)
           | None \<Rightarrow>
               (case proto_prop v k of
                  Some p \<Rightarrow> Inr (Builtin p)
                | None \<Rightarrow> Inr (Data JUndefined)))"

text \<open>
  The same read where the library stores or passes on what it has read: the name is
  then an own key of the value, an array index, or one of \<^verbatim>\<open>key\<close>, \<^verbatim>\<open>operator\<close>
  and \<^verbatim>\<open>value\<close>, and the read never finds a built-in object (lemmas
  \<open>read_own\<close>, \<open>proto_prop_digits\<close> and \<open>proto_prop_filter_names\<close>).
\<close>

definition read :: "jsval \<Rightarrow> jsval \<Rightarrow> error + jsval" where
  "read v key =
     (case get_prop v key of
        Inl e \<Rightarrow> Inl e
      | Inr x \<Rightarrow> Inr (operand x))"

text \<open>
  \<^verbatim>\<open>xs.join(sep)\<close>: an element that is \<^verbatim>\<open>undefined\<close> or \<^verbatim>\<open>null\<close> is rendered as
  the empty string.
\<close>

definition join_element :: "propval \<Rightarrow> string" where
  "join_element x =
     (case x of
        Data v \<Rightarrow> if v = JUndefined \<or> v = JNull then [] else ToString v
      | Builtin p \<Rightarrow> ToString p)"

definition join :: "propval list \<Rightarrow> string \<Rightarrow> string" where
  "join xs sep = join_strings sep (map join_element xs)"

text \<open>\<^verbatim>\<open>Object.keys(v)\<close>: it throws on \<^verbatim>\<open>undefined\<close> and \<^verbatim>\<open>null\<close>.\<close>

definition Object_keys :: "jsval \<Rightarrow> error + string list" where
  "Object_keys v =
     (case v of
        JUndefined \<Rightarrow> Inl TypeError
      | JNull \<Rightarrow> Inl TypeError
      | JBool b \<Rightarrow> Inr []
      | JNum n \<Rightarrow> Inr []
      | JStr s \<Rightarrow> Inr (map show_nat [0..<length s])
      | JArr xs \<Rightarrow> Inr (map show_nat [0..<length xs])
      | JObj ps \<Rightarrow> Inr (map fst ps))"

subsection \<open>The comparison operators\<close>

text \<open>
  \<^verbatim>\<open>Number(s)\<close> for a string: white space is trimmed, the empty string is 0, an
  optionally signed run of decimal digits is its value, and a string that is no numeral
  is NaN (\<open>None\<close>). The numerals in other notations (with a fraction, an exponent or a
  radix prefix, and \<^verbatim>\<open>Infinity\<close>) have no number of the model to be read as, and are
  read as NaN here too.
\<close>

definition is_digit :: "char \<Rightarrow> bool" where
  "is_digit c = (48 \<le> (of_char c :: nat) \<and> (of_char c :: nat) \<le> 57)"

fun digits_value :: "string \<Rightarrow> nat \<Rightarrow> nat" where
  "digits_value [] acc = acc"
| "digits_value (c # cs) acc = digits_value cs (10 * acc + ((of_char c :: nat) - 48))"

definition StringToNumber :: "string \<Rightarrow> int option" where
  "StringToNumber s =
     (case trim s of
        [] \<Rightarrow> Some 0
      | c # cs \<Rightarrow>
          if (c = CHR ''-'' \<or> c = CHR ''+'') \<and> cs \<noteq> [] \<and> list_all is_digit cs
          then Some ((if c = CHR ''-'' then - 1 else 1) * int (digits_value cs 0))
          else if list_all is_digit (c # cs) then Some (int (digits_value (c # cs) 0))
          else None)"

definition ToPrimitive :: "jsval \<Rightarrow> jsval" where
  "ToPrimitive v =
     (case v of JArr xs \<Rightarrow> JStr (ToString v) | JObj ps \<Rightarrow> JStr (ToString v) | _ \<Rightarrow> v)"

definition ToNumber :: "jsval \<Rightarrow> int option" where
  "ToNumber v =
     (case ToPrimitive v of
        JUndefined \<Rightarrow> None
      | JNull \<Rightarrow> Some 0
      | JBool b \<Rightarrow> Some (if b then 1 else 0)
      | JNum n \<Rightarrow> Some n
      | JStr s \<Rightarrow> StringToNumber s
      | _ \<Rightarrow> None)"

text \<open>
  \<^verbatim>\<open>a === b\<close>. Two objects are strictly equal only when they are the same object;
  the operands the library compares are a property of a stored item and an operand the
  caller passed, which are taken to be different objects.
\<close>

definition strict_equals :: "jsval \<Rightarrow> jsval \<Rightarrow> bool" where
  "strict_equals a b =
     (case (a, b) of
        (JUndefined, JUndefined) \<Rightarrow> True
      | (JNull, JNull) \<Rightarrow> True
      | (JBool x, JBool y) \<Rightarrow> x = y
      | (JNum x, JNum y) \<Rightarrow> x = y
      | (JStr x, JStr y) \<Rightarrow> x = y
      | _ \<Rightarrow> False)"

definition is_nullish :: "jsval \<Rightarrow> bool" where
  "is_nullish v = (v = JUndefined \<or> v = JNull)"

definition is_object :: "jsval \<Rightarrow> bool" where
  "is_object v = (case v of JArr xs \<Rightarrow> True | JObj ps \<Rightarrow> True | _ \<Rightarrow> False)"

text \<open>
  \<^verbatim>\<open>a == b\<close>: \<^verbatim>\<open>null\<close> and \<^verbatim>\<open>undefined\<close> equal each other and nothing else; two
  objects compare by identity; otherwise a boolean becomes its number, an object its
  primitive, and a number and a string are compared as numbers.
\<close>

definition loose_operand :: "jsval \<Rightarrow> jsval" where
  "loose_operand v =
     (case v of JBool b \<Rightarrow> JNum (if b then 1 else 0) | _ \<Rightarrow> ToPrimitive v)"

definition loose_equals :: "jsval \<Rightarrow> jsval \<Rightarrow> bool" where
  "loose_equals a b =
     (if is_nullish a \<or> is_nullish b then is_nullish a \<and> is_nullish b
      else if is_object a \<and> is_object b then False
      else case (loose_operand a, loose_operand b) of
             (JNum x, JNum y) \<Rightarrow> x = y
           | (JStr x, JStr y) \<Rightarrow> x = y
           | (JNum x, JStr y) \<Rightarrow> StringToNumber y = Some x
           | (JStr x, JNum y) \<Rightarrow> StringToNumber x = Some y
           | _ \<Rightarrow> False)"

text \<open>
  \<^verbatim>\<open>a < b\<close>, the relational comparison: two strings compare code unit by code unit,
  anything else as numbers, and a comparison with NaN is undefined (\<open>None\<close>), which
  every relational operator reads as false.
\<close>

fun string_less :: "string \<Rightarrow> string \<Rightarrow> bool" where
  "string_less [] [] = False"
| "string_less [] (y # ys) = True"
| "string_less (x # xs) [] = False"
| "string_less (x # xs) (y # ys) =
     (if (of_char x :: nat) < of_char y then True
      else if (of_char y :: nat) < of_char x then False
      else string_less xs ys)"

definition less_than :: "jsval \<Rightarrow> jsval \<Rightarrow> bool option" where
  "less_than a b =
     (case (ToPrimitive a, ToPrimitive b) of
        (JStr x, JStr y) \<Rightarrow> Some (string_less x y)
      | (pa, pb) \<Rightarrow>
          (case (ToNumber pa, ToNumber pb) of
             (Some x, Some y) \<Rightarrow> Some (x < y)
           | _ \<Rightarrow> None))"

definition js_lt :: "jsval \<Rightarrow> jsval \<Rightarrow> bool" where
  "js_lt a b = (less_than a b = Some True)"

definition js_gt :: "jsval \<Rightarrow> jsval \<Rightarrow> bool" where
  "js_gt a b = (less_than b a = Some True)"

definition js_le :: "jsval \<Rightarrow> jsval \<Rightarrow> bool" where
  "js_le a b = (less_than b a = Some False)"

definition js_ge :: "jsval \<Rightarrow> jsval \<Rightarrow> bool" where
  "js_ge a b = (less_than a b = Some False)"

section \<open>Matches and the scoring of one search term\<close>

text \<open>A match is the array \<^verbatim>\<open>[key, relevance, missing terms]\<close>.\<close>

record match =
  m_key :: jsval
  m_relevance :: int
  m_missing :: string

text \<open>
  \<^verbatim>\<open>search_(match, subject, term)\<close>: the number of pieces less one is added to the
  relevance when it is truthy (not zero); otherwise the term goes to the missing terms
  after a space.
\<close>

definition i_search :: "match \<Rightarrow> string \<Rightarrow> string \<Rightarrow> match" where
  "i_search m subject term =
     (let relevance = int (length (split subject term)) - 1
      in if relevance \<noteq> 0
         then m\<lparr>m_relevance := m_relevance m + relevance\<rparr>
         else m\<lparr>m_missing := m_missing m @ '' '' @ term\<rparr>)"

section \<open>The instance\<close>

text \<open>
  The instance holds the state \<^verbatim>\<open>s_\<close> and the options \<^verbatim>\<open>o_\<close>. The collection is
  a \<^verbatim>\<open>Map\<close>: a list of key and item pairs in insertion order, with no key twice.
  The arrays \<^verbatim>\<open>s_.matches\<close> and \<^verbatim>\<open>s_.allItems\<close> can be one and the same array
  (after an unconstrained search); \<open>s_shared\<close> records that, and every write to one of
  them goes through \<open>set_matches\<close> or \<open>set_allItems\<close>, which write the other too.
  A filter is the array \<^verbatim>\<open>[key, operator, value]\<close>. A custom comparator receives
  the item lookup and the two matches and returns what the sort turns into a number (it
  is taken to return, and to change nothing). The option \<^verbatim>\<open>customSort\<close> holds whatever
  \<^verbatim>\<open>sortUsing\<close> was given: such a function, or any other value; it starts as
  \<^verbatim>\<open>null\<close>.
\<close>

type_synonym filter = "jsval \<times> jsval \<times> jsval"

type_synonym comparator = "(match \<Rightarrow> jsval) \<Rightarrow> match \<Rightarrow> match \<Rightarrow> jsval"

datatype sort_setting = Sort_function comparator | Sort_value jsval

record searchlight =
  s_collection :: "(jsval \<times> jsval) list"
  s_matches :: "match list"
  s_partial :: "match list"
  s_allItems :: "match list"
  s_shared :: bool
  s_searchText :: string
  s_searchTerms :: "string list"
  s_keys :: "jsval list"
  s_filters :: "filter list"
  s_threshold :: nat
  s_error :: bool
  s_errorMessage :: string
  s_index :: nat
  s_lastIndex :: int
  s_totalMatches :: nat
  s_ready :: bool
  s_complete :: bool
  s_searched :: bool
  o_collectionType :: string
  o_case :: bool
  o_baseThreshold :: nat
  o_sort :: bool
  o_customSort :: sort_setting
  o_inject_property :: jsval
  o_inject_enabled :: bool

definition set_matches :: "searchlight \<Rightarrow> match list \<Rightarrow> searchlight" where
  "set_matches s xs =
     s\<lparr>s_matches := xs, s_allItems := (if s_shared s then xs else s_allItems s)\<rparr>"

definition set_allItems :: "searchlight \<Rightarrow> match list \<Rightarrow> searchlight" where
  "set_allItems s xs =
     s\<lparr>s_allItems := xs, s_matches := (if s_shared s then xs else s_matches s)\<rparr>"

subsection \<open>The Map of the collection\<close>

definition Map_get :: "(jsval \<times> jsval) list \<Rightarrow> jsval \<Rightarrow> jsval option" where
  "Map_get m k = map_of m k"

fun Map_set :: "(jsval \<times> jsval) list \<Rightarrow> jsval \<Rightarrow> jsval \<Rightarrow> (jsval \<times> jsval) list" where
  "Map_set [] k v = [(k, v)]"
| "Map_set ((k', v') # m) k v = (if k' = k then (k, v) # m else (k', v') # Map_set m k v)"

definition Map_new :: "(jsval \<times> jsval) list \<Rightarrow> (jsval \<times> jsval) list" where
  "Map_new entries = foldl (\<lambda>m (k, v). Map_set m k v) [] entries"

section \<open>The relevance engine\<close>

text \<open>
  \<^verbatim>\<open>filter_(item, match, filter)\<close>. The \<^verbatim>\<open>switch\<close> picks the comparison by the
  operator (compared with \<^verbatim>\<open>===\<close> to the eight operator strings); only then is
  \<^verbatim>\<open>item[key]\<close> read, and the boolean is added to the relevance as 0 or 1. An unknown
  operator warns on the console and adds nothing.
\<close>

definition test_loose :: "propval \<Rightarrow> jsval \<Rightarrow> bool" where
  "test_loose a b =
     (case a of
        Data x \<Rightarrow> loose_equals x b
      | Builtin p \<Rightarrow> \<not> is_nullish b \<and> \<not> is_object b \<and> loose_equals p b)"

definition test_strict :: "propval \<Rightarrow> jsval \<Rightarrow> bool" where
  "test_strict a b = (case a of Data x \<Rightarrow> strict_equals x b | Builtin p \<Rightarrow> False)"

definition operator_test :: "jsval \<Rightarrow> (propval \<Rightarrow> jsval \<Rightarrow> bool) option" where
  "operator_test operator =
     (if operator = JStr ''=='' then Some test_loose
      else if operator = JStr ''==='' then Some test_strict
      else if operator = JStr ''!='' then Some (\<lambda>a b. \<not> test_loose a b)
      else if operator = JStr ''!=='' then Some (\<lambda>a b. \<not> test_strict a b)
      else if operator = JStr ''>'' then Some (\<lambda>a b. js_gt (operand a) b)
      else if operator = JStr ''>='' then Some (\<lambda>a b. js_ge (operand a) b)
      else if operator = JStr ''<'' then Some (\<lambda>a b. js_lt (operand a) b)
      else if operator = JStr ''<='' then Some (\<lambda>a b. js_le (operand a) b)
      else None)"

definition i_filter :: "jsval \<Rightarrow> match \<Rightarrow> filter \<Rightarrow> error + match" where
  "i_filter item m f =
     (case f of (key, operator, val) \<Rightarrow>
        if typeof item \<noteq> ''string'' then
          (case operator_test operator of
             None \<Rightarrow> Inr m
           | Some test \<Rightarrow>
               (case get_prop item key of
                  Inl e \<Rightarrow> Inl e
                | Inr x \<Rightarrow>
                    Inr (m\<lparr>m_relevance := m_relevance m + (if test x val then 1 else 0)\<rparr>)))
        else Inr m)"

fun filters_forEach :: "jsval \<Rightarrow> match \<Rightarrow> filter list \<Rightarrow> error + match" where
  "filters_forEach item m [] = Inr m"
| "filters_forEach item m (f # fs) =
     (case i_filter item m f of
        Inl e \<Rightarrow> Inl e
      | Inr m' \<Rightarrow> filters_forEach item m' fs)"

text \<open>\<^verbatim>\<open>property_(item, property)\<close> is \<^verbatim>\<open>item[property] || null\<close>.\<close>

definition i_property :: "jsval \<Rightarrow> jsval \<Rightarrow> error + propval" where
  "i_property item property =
     (case get_prop item property of
        Inl e \<Rightarrow> Inl e
      | Inr x \<Rightarrow> Inr (if truthy x then x else Data JNull))"

fun keys_map :: "jsval \<Rightarrow> jsval list \<Rightarrow> error + propval list" where
  "keys_map item [] = Inr []"
| "keys_map item (p # ps) =
     (case i_property item p of
        Inl e \<Rightarrow> Inl e
      | Inr x \<Rightarrow>
          (case keys_map item ps of
             Inl e \<Rightarrow> Inl e
           | Inr xs \<Rightarrow> Inr (x # xs)))"

text \<open>\<^verbatim>\<open>reduceProperties_(item, subject, key)\<close> appends \<^verbatim>\<open>'|' + item[key]\<close>.\<close>

definition i_reduceProperties :: "jsval \<Rightarrow> string \<Rightarrow> string \<Rightarrow> error + string" where
  "i_reduceProperties item subject key =
     (case read item (JStr key) of
        Inl e \<Rightarrow> Inl e
      | Inr x \<Rightarrow> Inr (subject @ ''|'' @ ToString x))"

fun properties_reduce :: "jsval \<Rightarrow> string \<Rightarrow> string list \<Rightarrow> error + string" where
  "properties_reduce item subject [] = Inr subject"
| "properties_reduce item subject (k # ks) =
     (case i_reduceProperties item subject k of
        Inl e \<Rightarrow> Inl e
      | Inr subject' \<Rightarrow> properties_reduce item subject' ks)"

text \<open>
  The subject string of an item, before case folding: the item itself when it is a
  string; the values of the restricted keys joined with a bar when keys are set; else
  the elements of an array joined with a bar, or every own property of an object, each
  after a bar.
\<close>

definition subject_of :: "searchlight \<Rightarrow> jsval \<Rightarrow> error + string" where
  "subject_of s item =
     (case item of
        JStr text \<Rightarrow> Inr text
      | _ \<Rightarrow>
          if s_keys s \<noteq> [] then
            (case keys_map item (s_keys s) of
               Inl e \<Rightarrow> Inl e
             | Inr xs \<Rightarrow> Inr (join xs ''|''))
          else
            (case item of
               JArr xs \<Rightarrow> Inr (join (map Data xs) ''|'')
             | _ \<Rightarrow>
                 (case Object_keys item of
                    Inl e \<Rightarrow> Inl e
                  | Inr ks \<Rightarrow> properties_reduce item [] ks)))"

text \<open>
  \<^verbatim>\<open>calculateRelevance_(item, key)\<close> first computes the match of the item
  (\<open>score_match\<close>: the filters, then the search terms counted in the subject, which is
  folded to lower case unless the comparison is case sensitive), then pushes the match to
  \<^verbatim>\<open>allItems\<close> and, by its relevance, to neither, \<^verbatim>\<open>partial\<close> or \<^verbatim>\<open>matches\<close>.
\<close>

definition score_match :: "searchlight \<Rightarrow> jsval \<Rightarrow> jsval \<Rightarrow> error + match" where
  "score_match s item key =
     (case filters_forEach item \<lparr>m_key = key, m_relevance = 0, m_missing = []\<rparr> (s_filters s) of
        Inl e \<Rightarrow> Inl e
      | Inr m1 \<Rightarrow>
          (case subject_of s item of
             Inl e \<Rightarrow> Inl e
           | Inr subject0 \<Rightarrow>
               (let subject = (if \<not> o_case s then toLowerCase subject0 else subject0)
                in Inr (foldl (\<lambda>m t. i_search m subject t) m1 (s_searchTerms s)))))"

definition i_calculateRelevance :: "searchlight \<Rightarrow> jsval \<Rightarrow> jsval \<Rightarrow> error + searchlight" where
  "i_calculateRelevance s item key =
     (case score_match s item key of
        Inl e \<Rightarrow> Inl e
      | Inr m \<Rightarrow>
          (let s1 = set_allItems s (s_allItems s @ [m])
           in Inr (if m_relevance m = 0 then s1
                   else if m_relevance m < int (s_threshold s1)
                   then s1\<lparr>s_partial := s_partial s1 @ [m]\<rparr>
                   else set_matches s1 (s_matches s1 @ [m]))))"

definition i_emptyMatch :: "jsval \<Rightarrow> match" where
  "i_emptyMatch key = \<lparr>m_key = key, m_relevance = 0, m_missing = []\<rparr>"

section \<open>The match classifier and its cache\<close>

definition fn_updateConstraints :: "searchlight \<Rightarrow> searchlight" where
  "fn_updateConstraints s =
     (if \<not> s_ready s then
        (let terms = (if s_searchText s = [] then []
                      else split (if o_case s then s_searchText s
                                  else toLowerCase (s_searchText s)) '' '')
         in s\<lparr>s_searchTerms := terms,
               s_threshold := o_baseThreshold s + length (s_filters s)
                              + (if length terms > 0 then 1 else 0),
               s_ready := True\<rparr>)
      else s)"

definition fn_isConstrained :: "searchlight \<Rightarrow> bool \<times> searchlight" where
  "fn_isConstrained s =
     (let s1 = fn_updateConstraints s
      in (length (s_searchTerms s1) \<noteq> 0 \<or> length (s_filters s1) \<noteq> 0, s1))"

text \<open>\<^verbatim>\<open>collection.forEach(calculateRelevance_)\<close>, in the Map's order.\<close>

fun collection_forEach :: "searchlight \<Rightarrow> (jsval \<times> jsval) list \<Rightarrow> error + searchlight" where
  "collection_forEach s [] = Inr s"
| "collection_forEach s ((key, item) # entries) =
     (case i_calculateRelevance s item key of
        Inl e \<Rightarrow> Inl e
      | Inr s' \<Rightarrow> collection_forEach s' entries)"

definition fn_performSearch :: "searchlight \<Rightarrow> error + searchlight" where
  "fn_performSearch s =
     (case fn_isConstrained s of
        (constrained, s1) \<Rightarrow>
          if constrained then
            (case collection_forEach
                    (s1\<lparr>s_allItems := [], s_matches := [], s_partial := [], s_shared := False\<rparr>)
                    (s_collection s1) of
               Inl e \<Rightarrow> Inl e
             | Inr s2 \<Rightarrow> Inr (s2\<lparr>s_searched := True\<rparr>))
          else
            (let all = map i_emptyMatch (map fst (s_collection s1))
             in Inr (s1\<lparr>s_allItems := all, s_matches := all, s_shared := True,
                         s_partial := [], s_searched := True\<rparr>)))"

section \<open>The result sorter\<close>

text \<open>
  \<^verbatim>\<open>sortComparator_(matchA, matchB)\<close> returns the number 1 or -1 when the relevances
  differ and, when they are equal, the boolean \<^verbatim>\<open>matchB[0] < matchA[0]\<close>.
\<close>

definition i_sortComparator :: "match \<Rightarrow> match \<Rightarrow> jsval" where
  "i_sortComparator matchA matchB =
     (if m_relevance matchB > m_relevance matchA then JNum 1
      else if m_relevance matchB = m_relevance matchA
      then JBool (js_lt (m_key matchB) (m_key matchA))
      else JNum (- 1))"

text \<open>
  \<^verbatim>\<open>Array.prototype.sort\<close> belongs to the JavaScript engine. It turns what the
  comparator returns into a number (NaN counts as 0) and sorts in place; the order it
  leaves is defined by the language only for a consistent comparator. The engine's sort
  is a parameter \<open>hs\<close> of everything that sorts, given the comparator as a function to
  numbers.
\<close>

type_synonym hostsort = "(match \<Rightarrow> match \<Rightarrow> int) \<Rightarrow> match list \<Rightarrow> match list"

definition comparefn_number :: "jsval \<Rightarrow> int" where
  "comparefn_number v = (case ToNumber v of Some n \<Rightarrow> n | None \<Rightarrow> 0)"

text \<open>
  One engine's sort, for running examples: a stable insertion sort that moves an element
  to the left of its predecessor only when the comparator, called on the element and the
  predecessor, returns a negative number (the test of a binary insertion sort whose
  search goes left on a negative result and right otherwise). The sorted prefix is kept
  reversed while inserting.
\<close>

fun insert_left :: "('a \<Rightarrow> 'a \<Rightarrow> int) \<Rightarrow> 'a \<Rightarrow> 'a list \<Rightarrow> 'a list" where
  "insert_left cmp x [] = [x]"
| "insert_left cmp x (y # ys) =
     (if cmp x y < 0 then y # insert_left cmp x ys else x # y # ys)"

definition insertion_sort :: "('a \<Rightarrow> 'a \<Rightarrow> int) \<Rightarrow> 'a list \<Rightarrow> 'a list" where
  "insertion_sort cmp xs = rev (foldl (\<lambda>acc x. insert_left cmp x acc) [] xs)"

definition fn_getItem :: "searchlight \<Rightarrow> match \<Rightarrow> jsval" where
  "fn_getItem s m = (case Map_get (s_collection s) (m_key m) of Some x \<Rightarrow> x | None \<Rightarrow> JUndefined)"

text \<open>
  \<^verbatim>\<open>performSort_(matches)\<close> sorts the array it is given in place; here it returns the
  sorted list, with the instance (checking for constraints may update the search terms),
  and the caller stores the list where the array lives. Whenever \<^verbatim>\<open>customSort\<close> is
  not \<^verbatim>\<open>null\<close> its \<^verbatim>\<open>bind\<close> is called, which throws unless it is a function: on
  \<^verbatim>\<open>undefined\<close> the read of \<^verbatim>\<open>bind\<close> throws, and on any other value there is no
  function to call under that name.
\<close>

definition fn_performSort ::
  "hostsort \<Rightarrow> searchlight \<Rightarrow> match list \<Rightarrow> error + (searchlight \<times> match list)" where
  "fn_performSort hs s ms =
     (case (if o_sort s then
              (case fn_isConstrained s of
                 (constrained, s1) \<Rightarrow>
                   if constrained \<and> length ms \<noteq> 0
                   then (s1, hs (\<lambda>a b. comparefn_number (i_sortComparator a b)) ms)
                   else (s1, ms))
            else (s, ms)) of
        (s1, ms1) \<Rightarrow>
          (case o_customSort s1 of
             Sort_value v \<Rightarrow> if v = JNull then Inr (s1, ms1) else Inl TypeError
           | Sort_function f \<Rightarrow>
               Inr (s1, hs (\<lambda>a b. comparefn_number (f (fn_getItem s1) a b)) ms1)))"

definition fn_updateMatches :: "hostsort \<Rightarrow> searchlight \<Rightarrow> error + searchlight" where
  "fn_updateMatches hs s =
     (if \<not> s_complete s then
        (case (if \<not> s_searched s then fn_performSearch s else Inr s) of
           Inl e \<Rightarrow> Inl e
         | Inr s1 \<Rightarrow>
             (case fn_performSort hs s1 (s_matches s1) of
                Inl e \<Rightarrow> Inl e
              | Inr (s2, ms1) \<Rightarrow>
                  (let s3 = set_matches s2 ms1;
                       total = length (s_matches s3)
                   in Inr (s3\<lparr>s_totalMatches := total, s_index := 0,
                               s_lastIndex := int total - 1, s_complete := True\<rparr>))))
      else Inr s)"

section \<open>The output formatter\<close>

text \<open>
  Assigning a property of an object: an existing property keeps its place; a new one
  goes after the others, except that a property named by an array index (the canonical
  numeral of a number below \<open>2\<^sup>3\<^sup>2 - 1\<close>) goes among the index names, in ascending
  order, before every other name. Assigning to the name \<^verbatim>\<open>__proto__\<close>, when the object
  has no own property of that name, adds no property: it reaches the setter of
  \<^verbatim>\<open>Object.prototype\<close>, which changes the prototype of the object and none of its
  own properties.
\<close>

definition is_index_name :: "string \<Rightarrow> bool" where
  "is_index_name k =
     (k \<noteq> [] \<and> list_all is_digit k \<and> show_nat (digits_value k 0) = k \<and>
      digits_value k 0 < 4294967295)"

fun insert_index :: "(string \<times> jsval) list \<Rightarrow> string \<Rightarrow> jsval \<Rightarrow> (string \<times> jsval) list" where
  "insert_index [] k v = [(k, v)]"
| "insert_index ((k', v') # ps) k v =
     (if is_index_name k' \<and> digits_value k' 0 < digits_value k 0
      then (k', v') # insert_index ps k v
      else (k, v) # (k', v') # ps)"

definition obj_set :: "(string \<times> jsval) list \<Rightarrow> string \<Rightarrow> jsval \<Rightarrow> (string \<times> jsval) list" where
  "obj_set ps k v =
     (if k \<in> fst ` set ps then map (\<lambda>(k', v'). if k' = k then (k', v) else (k', v')) ps
      else if k = ''__proto__'' then ps
      else if is_index_name k then insert_index ps k v
      else ps @ [(k, v)])"

definition stats :: "match \<Rightarrow> jsval" where
  "stats m = JObj [(''relevance'', JNum (m_relevance m)), (''missing'', JStr (m_missing m))]"

text \<open>
  \<^verbatim>\<open>getItemInject_(match)\<close> changes the stored item: the statistics are pushed onto an
  array and assigned to the configured property of an object (which throws on
  \<^verbatim>\<open>null\<close>, whose type is \<^verbatim>\<open>'object'\<close> too). The value returned is the item as it is
  when the function returns.
\<close>

definition fn_getItemInject :: "searchlight \<Rightarrow> match \<Rightarrow> error + (jsval \<times> searchlight)" where
  "fn_getItemInject s m =
     (case Map_get (s_collection s) (m_key m) of
        None \<Rightarrow> Inr (JUndefined, s)
      | Some item \<Rightarrow>
          (case item of
             JArr xs \<Rightarrow>
               (let item' = JArr (xs @ [stats m])
                in Inr (item', s\<lparr>s_collection := Map_set (s_collection s) (m_key m) item'\<rparr>))
           | JObj ps \<Rightarrow>
               (let item' = JObj (obj_set ps (ToString (o_inject_property s)) (stats m))
                in Inr (item', s\<lparr>s_collection := Map_set (s_collection s) (m_key m) item'\<rparr>))
           | JNull \<Rightarrow> Inl TypeError
           | _ \<Rightarrow> Inr (item, s)))"

fun map_getItemInject :: "searchlight \<Rightarrow> match list \<Rightarrow> error + (jsval list \<times> searchlight)" where
  "map_getItemInject s [] = Inr ([], s)"
| "map_getItemInject s (m # ms) =
     (case fn_getItemInject s m of
        Inl e \<Rightarrow> Inl e
      | Inr (x, s1) \<Rightarrow>
          (case map_getItemInject s1 ms of
             Inl e \<Rightarrow> Inl e
           | Inr (xs, s2) \<Rightarrow> Inr (x # xs, s2)))"

definition i_reduce :: "searchlight \<Rightarrow> (string \<times> jsval) list \<Rightarrow> match \<Rightarrow> (string \<times> jsval) list" where
  "i_reduce s items m = obj_set items (ToString (m_key m)) (fn_getItem s m)"

fun reduce_inject ::
  "searchlight \<Rightarrow> (string \<times> jsval) list \<Rightarrow> match list \<Rightarrow> error + ((string \<times> jsval) list \<times> searchlight)" where
  "reduce_inject s items [] = Inr (items, s)"
| "reduce_inject s items (m # ms) =
     (case fn_getItemInject s m of
        Inl e \<Rightarrow> Inl e
      | Inr (x, s1) \<Rightarrow> reduce_inject s1 (obj_set items (ToString (m_key m)) x) ms)"

definition fn_toOriginalFormat :: "searchlight \<Rightarrow> match list \<Rightarrow> error + (jsval \<times> searchlight)" where
  "fn_toOriginalFormat s ms =
     (if o_collectionType s = ''array'' then
        (if o_inject_enabled s then
           (case map_getItemInject s ms of
              Inl e \<Rightarrow> Inl e
            | Inr (xs, s1) \<Rightarrow> Inr (JArr xs, s1))
         else Inr (JArr (map (fn_getItem s) ms), s))
      else
        (if o_inject_enabled s then
           (case reduce_inject s [] ms of
              Inl e \<Rightarrow> Inl e
            | Inr (items, s1) \<Rightarrow> Inr (JObj items, s1))
         else Inr (JObj (foldl (i_reduce s) [] ms), s)))"

section \<open>The result accessors\<close>

definition get_length :: "hostsort \<Rightarrow> searchlight \<Rightarrow> error + (nat \<times> searchlight)" where
  "get_length hs s =
     (case fn_updateMatches hs s of
        Inl e \<Rightarrow> Inl e
      | Inr s1 \<Rightarrow> Inr (s_totalMatches s1, s1))"

definition get_matches :: "hostsort \<Rightarrow> searchlight \<Rightarrow> error + (jsval \<times> searchlight)" where
  "get_matches hs s =
     (case fn_updateMatches hs s of
        Inl e \<Rightarrow> Inl e
      | Inr s1 \<Rightarrow> fn_toOriginalFormat s1 (s_matches s1))"

definition get_partialMatches :: "hostsort \<Rightarrow> searchlight \<Rightarrow> error + (jsval \<times> searchlight)" where
  "get_partialMatches hs s =
     (case fn_updateMatches hs s of
        Inl e \<Rightarrow> Inl e
      | Inr s1 \<Rightarrow>
          (case fn_performSort hs s1 (s_partial s1) of
             Inl e \<Rightarrow> Inl e
           | Inr (s2, ms1) \<Rightarrow> fn_toOriginalFormat (s2\<lparr>s_partial := ms1\<rparr>) ms1))"

definition get_allMatches :: "hostsort \<Rightarrow> searchlight \<Rightarrow> error + (jsval \<times> searchlight)" where
  "get_allMatches hs s =
     (case fn_updateMatches hs s of
        Inl e \<Rightarrow> Inl e
      | Inr s1 \<Rightarrow>
          (case fn_performSort hs s1 (s_matches s1 @ s_partial s1) of
             Inl e \<Rightarrow> Inl e
           | Inr (s2, ms1) \<Rightarrow> fn_toOriginalFormat s2 ms1))"

definition get_allItems :: "hostsort \<Rightarrow> searchlight \<Rightarrow> error + (jsval \<times> searchlight)" where
  "get_allItems hs s =
     (case fn_updateMatches hs s of
        Inl e \<Rightarrow> Inl e
      | Inr s1 \<Rightarrow>
          (case fn_performSort hs s1 (s_allItems s1) of
             Inl e \<Rightarrow> Inl e
           | Inr (s2, ms1) \<Rightarrow> fn_toOriginalFormat (set_allItems s2 ms1) ms1))"

section \<open>The collection store\<close>

text \<open>
  \<^verbatim>\<open>collection_(collection)\<close>: the keys of an array are its indices, the keys of any
  other value of type \<^verbatim>\<open>'object'\<close> are its own property names (\<^verbatim>\<open>Object.keys\<close>
  throws on \<^verbatim>\<open>null\<close>), and anything else sets the error flag and message and leaves
  the Map empty. The console warning is not modelled.

  The own property names are filtered by \<^verbatim>\<open>collection.hasOwnProperty(key)\<close>: for
  each name the member \<^verbatim>\<open>hasOwnProperty\<close> of the collection is read and called. The
  built-in function says yes for an own property; an own property of that name is a
  value of the data, which is no function, and calling it throws.
\<close>

fun hasOwnProperty_filter :: "jsval \<Rightarrow> string list \<Rightarrow> error + string list" where
  "hasOwnProperty_filter collection [] = Inr []"
| "hasOwnProperty_filter collection (key # keys) =
     (case get_prop collection (JStr ''hasOwnProperty'') of
        Inl e \<Rightarrow> Inl e
      | Inr (Data x) \<Rightarrow> Inl TypeError
      | Inr (Builtin f) \<Rightarrow>
          (case hasOwnProperty_filter collection keys of
             Inl e \<Rightarrow> Inl e
           | Inr kept \<Rightarrow> Inr (if own_prop collection key \<noteq> None then key # kept else kept)))"

fun entries_map :: "jsval \<Rightarrow> jsval list \<Rightarrow> error + (jsval \<times> jsval) list" where
  "entries_map collection [] = Inr []"
| "entries_map collection (key # keys) =
     (case read collection key of
        Inl e \<Rightarrow> Inl e
      | Inr x \<Rightarrow>
          (case entries_map collection keys of
             Inl e \<Rightarrow> Inl e
           | Inr entries \<Rightarrow> Inr ((key, x) # entries)))"

definition fn_collection :: "jsval \<Rightarrow> searchlight \<Rightarrow> error + searchlight" where
  "fn_collection collection s =
     (case (case collection of
              JArr xs \<Rightarrow> Inr (map (\<lambda>i. JNum (int i)) [0..<length xs], s)
            | _ \<Rightarrow>
                if typeof collection = ''object'' then
                  (case Object_keys collection of
                     Inl e \<Rightarrow> Inl e
                   | Inr ks \<Rightarrow>
                       (case hasOwnProperty_filter collection ks of
                          Inl e \<Rightarrow> Inl e
                        | Inr kept \<Rightarrow> Inr (map JStr kept, s\<lparr>o_collectionType := ''object''\<rparr>)))
                else
                  Inr ([], s\<lparr>s_error := True,
                             s_errorMessage := ''Invalid collection type: '' @ typeof collection\<rparr>)) of
        Inl e \<Rightarrow> Inl e
      | Inr (keys, s1) \<Rightarrow>
          (case entries_map collection keys of
             Inl e \<Rightarrow> Inl e
           | Inr entries \<Rightarrow>
               Inr (s1\<lparr>s_collection := Map_new entries,
                       s_complete := False, s_searched := False\<rparr>)))"

definition new_instance :: searchlight where
  "new_instance =
     \<lparr>s_collection = [], s_matches = [], s_partial = [], s_allItems = [], s_shared = False,
      s_searchText = [], s_searchTerms = [], s_keys = [], s_filters = [], s_threshold = 0,
      s_error = False, s_errorMessage = [], s_index = 0, s_lastIndex = 0,
      s_totalMatches = 0, s_ready = False, s_complete = False, s_searched = False,
      o_collectionType = ''array'', o_case = False, o_baseThreshold = 0, o_sort = False,
      o_customSort = Sort_value JNull, o_inject_property = JStr ''searchResults'',
      o_inject_enabled = False\<rparr>"

definition search :: "jsval \<Rightarrow> error + searchlight" where
  "search items = fn_collection items new_instance"

section \<open>The constraint accumulator and the settings\<close>

text \<open>
  \<^verbatim>\<open>and(constraint)\<close>: a string is added to the search text; a value of type
  \<^verbatim>\<open>'object'\<close> is read as a filter, by position when it is an array and by the names
  \<^verbatim>\<open>key\<close>, \<^verbatim>\<open>operator\<close>, \<^verbatim>\<open>value\<close> otherwise (reading them throws on \<^verbatim>\<open>null\<close>);
  anything else only warns.
\<close>

definition sl_and :: "jsval \<Rightarrow> searchlight \<Rightarrow> error + searchlight" where
  "sl_and constraint s =
     (let s0 = s\<lparr>s_ready := False, s_complete := False, s_searched := False\<rparr> in
      case constraint of
        JStr text \<Rightarrow> Inr (s0\<lparr>s_searchText := trim (s_searchText s0 @ '' '' @ text)\<rparr>)
      | _ \<Rightarrow>
          if typeof constraint = ''object'' then
            (case (if isArray constraint
                   then (read constraint (JNum 0), read constraint (JNum 1),
                         read constraint (JNum 2))
                   else (read constraint (JStr ''key''),
                         read constraint (JStr ''operator''),
                         read constraint (JStr ''value''))) of
               (Inr key, Inr operator, Inr val) \<Rightarrow>
                 Inr (s0\<lparr>s_filters := s_filters s0 @
                           [if typeof val = ''undefined'' then (key, JStr ''=='', operator)
                            else (key, operator, val)]\<rparr>)
             | _ \<Rightarrow> Inl TypeError)
          else Inr s0)"

definition sl_for :: "jsval \<Rightarrow> searchlight \<Rightarrow> error + searchlight" where
  "sl_for constraint s = sl_and constraint (s\<lparr>s_searchText := [], s_filters := []\<rparr>)"

text \<open>
  \<^verbatim>\<open>or(keys)\<close>: a string is pushed; anything else is handed to
  \<^verbatim>\<open>Array.prototype.push.apply\<close>, which pushes the elements of an array or of an
  array-like object, pushes nothing for \<^verbatim>\<open>undefined\<close> and \<^verbatim>\<open>null\<close>, and throws on
  a number or a boolean.
\<close>

definition array_like_elements :: "jsval \<Rightarrow> error + jsval list" where
  "array_like_elements v =
     (case v of
        JUndefined \<Rightarrow> Inr []
      | JNull \<Rightarrow> Inr []
      | JArr xs \<Rightarrow> Inr xs
      | JObj ps \<Rightarrow>
          (let n = (case map_of ps ''length'' of
                      None \<Rightarrow> 0
                    | Some l \<Rightarrow> (case ToNumber l of None \<Rightarrow> 0 | Some k \<Rightarrow> nat k))
           in Inr (map (\<lambda>i. case map_of ps (show_nat i) of Some x \<Rightarrow> x | None \<Rightarrow> JUndefined)
                     [0..<n]))
      | _ \<Rightarrow> Inl TypeError)"

definition sl_or :: "jsval \<Rightarrow> searchlight \<Rightarrow> error + searchlight" where
  "sl_or keys s =
     (let s0 = s\<lparr>s_ready := False, s_complete := False, s_searched := False\<rparr> in
      case keys of
        JStr k \<Rightarrow> Inr (s0\<lparr>s_keys := s_keys s0 @ [keys]\<rparr>)
      | _ \<Rightarrow>
          (case array_like_elements keys of
             Inl e \<Rightarrow> Inl e
           | Inr ks \<Rightarrow> Inr (s0\<lparr>s_keys := s_keys s0 @ ks\<rparr>)))"

definition sl_in :: "jsval \<Rightarrow> searchlight \<Rightarrow> error + searchlight" where
  "sl_in keys s = sl_or keys (s\<lparr>s_keys := []\<rparr>)"

definition sl_sorted :: "searchlight \<Rightarrow> searchlight" where
  "sl_sorted s = (if \<not> o_sort s then s\<lparr>o_sort := True, s_complete := False\<rparr> else s)"

definition sl_unsorted :: "searchlight \<Rightarrow> searchlight" where
  "sl_unsorted s = (if o_sort s then s\<lparr>o_sort := False, s_complete := False\<rparr> else s)"

definition sl_sortUsing :: "sort_setting \<Rightarrow> searchlight \<Rightarrow> searchlight" where
  "sl_sortUsing fn s = s\<lparr>o_customSort := fn, s_complete := False\<rparr>"

definition sl_compareCase :: "searchlight \<Rightarrow> searchlight" where
  "sl_compareCase s =
     (if \<not> o_case s then s\<lparr>o_case := True, s_complete := False, s_searched := False\<rparr> else s)"

definition sl_ignoreCase :: "searchlight \<Rightarrow> searchlight" where
  "sl_ignoreCase s =
     (if o_case s then s\<lparr>o_case := False, s_complete := False, s_searched := False\<rparr> else s)"

definition sl_withStats :: "jsval \<Rightarrow> searchlight \<Rightarrow> searchlight" where
  "sl_withStats property s =
     (let s1 = s\<lparr>o_inject_enabled := True\<rparr>
      in if typeof property \<noteq> ''undefined'' then s1\<lparr>o_inject_property := property\<rparr> else s1)"

definition sl_withoutStats :: "searchlight \<Rightarrow> searchlight" where
  "sl_withoutStats s = s\<lparr>o_inject_enabled := False\<rparr>"

section \<open>The deferred result and the iteration protocol\<close>

text \<open>
  \<^verbatim>\<open>then(success, failure)\<close> builds a promise whose executor updates the matches and
  rejects with \<^verbatim>\<open>Error(errorMessage)\<close> when the error flag is set; an exception thrown
  in the executor rejects the promise with what was thrown (\<open>Inl\<close> here: nothing is
  thrown at the caller, but the update was interrupted). The outcome is how the promise
  settles; the callbacks and their scheduling are not modelled. The resolved value reads
  the accessors of the instance when asked, so it carries nothing here.
\<close>

datatype outcome = Rejected_Error string | Resolved

definition sl_then :: "hostsort \<Rightarrow> searchlight \<Rightarrow> error + (outcome \<times> searchlight)" where
  "sl_then hs s =
     (case fn_updateMatches hs s of
        Inl e \<Rightarrow> Inl e
      | Inr s1 \<Rightarrow>
          Inr (if s_error s1 then Rejected_Error (s_errorMessage s1) else Resolved, s1))"

text \<open>
  The members of the objects a method can reach through \<^verbatim>\<open>this\<close>: the instance has
  its own \<^verbatim>\<open>s_\<close> and \<^verbatim>\<open>o_\<close> and inherits the members of the prototype; the internal
  functions live in the objects \<^verbatim>\<open>fn_\<close> and \<^verbatim>\<open>i_\<close>. Calling a member that an object
  does not have throws a \<^verbatim>\<open>TypeError\<close>.
\<close>

definition prototype_members :: "string list" where
  "prototype_members =
     [''search'', ''for'', ''and'', ''in'', ''or'', ''sorted'', ''unsorted'', ''sortUsing'',
      ''compareCase'', ''ignoreCase'', ''withStats'', ''withoutStats'', ''then'', ''catch'',
      ''length'', ''matches'', ''partialMatches'', ''allMatches'', ''allItems'',
      ''Symbol.iterator'', ''fn_'', ''i_'']"

definition instance_members :: "string list" where
  "instance_members = [''s_'', ''o_''] @ prototype_members"

definition fn_members :: "string list" where
  "fn_members =
     [''collection_'', ''performSearch_'', ''updateMatches_'', ''performSort_'', ''getItem_'',
      ''getItemInject_'', ''toOriginalFormat_'', ''updateConstraints_'', ''isConstrained'']"

text \<open>
  \<^verbatim>\<open>[Symbol.iterator]()\<close> calls \<^verbatim>\<open>this.updateMatches_()\<close> on the instance and then
  hands out \<^verbatim>\<open>next_\<close> or \<^verbatim>\<open>nextInject_\<close>.
\<close>

datatype iterator = Next | NextInject

definition Symbol_iterator :: "hostsort \<Rightarrow> searchlight \<Rightarrow> error + (iterator \<times> searchlight)" where
  "Symbol_iterator hs s =
     (if ''updateMatches_'' \<in> set instance_members then
        (case fn_updateMatches hs s of
           Inl e \<Rightarrow> Inl e
         | Inr s1 \<Rightarrow> Inr (if o_inject_enabled s1 then NextInject else Next, s1))
      else Inl TypeError)"

text \<open>
  \<^verbatim>\<open>next_()\<close> is done when the index has passed the last index; otherwise it takes
  \<^verbatim>\<open>matches[index++]\<close> and calls \<^verbatim>\<open>this.fn_.getItem_\<close> as a method of \<^verbatim>\<open>fn_\<close>,
  where \<^verbatim>\<open>this.s_\<close> is read from \<^verbatim>\<open>fn_\<close>.
\<close>

definition i_next :: "searchlight \<Rightarrow> error + (jsval option \<times> searchlight)" where
  "i_next s =
     (if int (s_index s) > s_lastIndex s then Inr (None, s)
      else if ''s_'' \<in> set fn_members \<and> s_index s < length (s_matches s)
      then Inr (Some (fn_getItem s (s_matches s ! s_index s)), s\<lparr>s_index := s_index s + 1\<rparr>)
      else Inl TypeError)"

section \<open>Sequences of calls\<close>

text \<open>
  Chaining calls that can throw, and the result of an accessor without the instance.
\<close>

definition and_then :: "error + 'a \<Rightarrow> ('a \<Rightarrow> error + 'b) \<Rightarrow> error + 'b" where
  "and_then r f = (case r of Inl e \<Rightarrow> Inl e | Inr x \<Rightarrow> f x)"

definition result_of :: "error + ('a \<times> searchlight) \<Rightarrow> error + 'a" where
  "result_of r = (case r of Inl e \<Rightarrow> Inl e | Inr (x, s) \<Rightarrow> Inr x)"

definition on_result :: "('a \<Rightarrow> 'b) \<Rightarrow> error + 'a \<Rightarrow> error + 'b" where
  "on_result f r = (case r of Inl e \<Rightarrow> Inl e | Inr x \<Rightarrow> Inr (f x))"

definition state_of :: "error + ('a \<times> searchlight) \<Rightarrow> error + searchlight" where
  "state_of r = (case r of Inl e \<Rightarrow> Inl e | Inr (x, s) \<Rightarrow> Inr s)"

text \<open>
  The calls of the public interface that return (requesting iteration is not among
  them, see \<open>Symbol_iterator\<close>). A call that throws ends the sequence: the instance an
  interrupted call leaves behind is not modelled.
\<close>

datatype call =
    For jsval | And jsval | In jsval | Or jsval
  | Sorted | Unsorted | SortUsing sort_setting
  | CompareCase | IgnoreCase | WithStats jsval | WithoutStats
  | Then | Length | Matches | PartialMatches | AllMatches | AllItems

definition perform :: "hostsort \<Rightarrow> call \<Rightarrow> searchlight \<Rightarrow> error + searchlight" where
  "perform hs c s =
     (case c of
        For x \<Rightarrow> sl_for x s
      | And x \<Rightarrow> sl_and x s
      | In x \<Rightarrow> sl_in x s
      | Or x \<Rightarrow> sl_or x s
      | Sorted \<Rightarrow> Inr (sl_sorted s)
      | Unsorted \<Rightarrow> Inr (sl_unsorted s)
      | SortUsing fn \<Rightarrow> Inr (sl_sortUsing fn s)
      | CompareCase \<Rightarrow> Inr (sl_compareCase s)
      | IgnoreCase \<Rightarrow> Inr (sl_ignoreCase s)
      | WithStats x \<Rightarrow> Inr (sl_withStats x s)
      | WithoutStats \<Rightarrow> Inr (sl_withoutStats s)
      | Then \<Rightarrow> state_of (sl_then hs s)
      | Length \<Rightarrow> state_of (get_length hs s)
      | Matches \<Rightarrow> state_of (get_matches hs s)
      | PartialMatches \<Rightarrow> state_of (get_partialMatches hs s)
      | AllMatches \<Rightarrow> state_of (get_allMatches hs s)
      | AllItems \<Rightarrow> state_of (get_allItems hs s))"

fun perform_all :: "hostsort \<Rightarrow> call list \<Rightarrow> searchlight \<Rightarrow> error + searchlight" where
  "perform_all hs [] s = Inr s"
| "perform_all hs (c # cs) s =
     (case perform hs c s of
        Inl e \<Rightarrow> Inl e
      | Inr s1 \<Rightarrow> perform_all hs cs s1)"

text \<open>
  The instances: what \<^verbatim>\<open>search\<close> returns, and what any sequence of calls that
  return makes of it.
\<close>

definition reachable :: "hostsort \<Rightarrow> searchlight \<Rightarrow> bool" where
  "reachable hs s =
     (\<exists>collection calls s0. search collection = Inr s0 \<and> perform_all hs calls s0 = Inr s)"

section \<open>The statements of the specification that are compared with the code\<close>



text \<open>
  The specification's classification by score, over the matches of all the items: a
  score of exactly 0 is in neither bucket, a score above 0 and below the threshold is a
  partial match, a score at or above the threshold is a full match.
\<close>

definition spec_classified_by_score :: "searchlight \<Rightarrow> bool" where
  "spec_classified_by_score s =
     (\<forall>m \<in> set (s_allItems s).
        (m_relevance m = 0 \<longrightarrow> m \<notin> set (s_matches s) \<and> m \<notin> set (s_partial s)) \<and>
        (0 < m_relevance m \<and> m_relevance m < int (s_threshold s) \<longrightarrow>
           m \<in> set (s_partial s) \<and> m \<notin> set (s_matches s)) \<and>
        (m_relevance m \<ge> int (s_threshold s) \<longrightarrow>
           m \<in> set (s_matches s) \<and> m \<notin> set (s_partial s)))"

section \<open>Predicates used in the statements\<close>

text \<open>
  What a scoring pass pushes: the matches below the threshold and those at or above it,
  in the order of the pass, a match of relevance 0 being in neither. \<open>scored\<close> says
  that \<open>ms\<close> are the matches of the entries, one for one and in order.
\<close>

definition partial_of :: "nat \<Rightarrow> match list \<Rightarrow> match list" where
  "partial_of threshold ms =
     filter (\<lambda>m. m_relevance m \<noteq> 0 \<and> m_relevance m < int threshold) ms"

definition full_of :: "nat \<Rightarrow> match list \<Rightarrow> match list" where
  "full_of threshold ms =
     filter (\<lambda>m. m_relevance m \<noteq> 0 \<and> \<not> m_relevance m < int threshold) ms"

definition scored :: "searchlight \<Rightarrow> (jsval \<times> jsval) list \<Rightarrow> match list \<Rightarrow> bool" where
  "scored s entries ms =
     list_all2 (\<lambda>entry m. score_match s (snd entry) (fst entry) = Inr m) entries ms"

text \<open>
  The excluded bucket is not an array of the instance: it is what \<^verbatim>\<open>allItems\<close> holds
  and neither \<^verbatim>\<open>matches\<close> nor \<^verbatim>\<open>partial\<close> does. \<open>bucket_count\<close> counts the
  places of a key in the three buckets together.
\<close>

definition excluded :: "searchlight \<Rightarrow> match list" where
  "excluded s =
     filter (\<lambda>m. m \<notin> set (s_matches s) \<and> m \<notin> set (s_partial s)) (s_allItems s)"

definition bucket_count :: "jsval \<Rightarrow> searchlight \<Rightarrow> nat" where
  "bucket_count k s =
     count_list (map m_key (s_matches s)) k + count_list (map m_key (s_partial s)) k
       + count_list (map m_key (excluded s)) k"

text \<open>
  What every instance satisfies: the Map has no key twice, and once the constraints
  are processed (\<^verbatim>\<open>ready\<close>) the stored threshold is the one of the stored filters
  and search terms, and there are no search terms when the search text is empty.
\<close>

definition threshold_current :: "searchlight \<Rightarrow> bool" where
  "threshold_current s =
     (s_ready s \<longrightarrow>
        s_threshold s = o_baseThreshold s + length (s_filters s)
                        + (if s_searchTerms s \<noteq> [] then 1 else 0) \<and>
        (s_searchText s = [] \<longrightarrow> s_searchTerms s = []))"

definition well_formed :: "searchlight \<Rightarrow> bool" where
  "well_formed s = (distinct (map fst (s_collection s)) \<and> threshold_current s)"

text \<open>A search for the text \<^verbatim>\<open>'a'\<close> in three short texts.\<close>

definition small_search :: "error + searchlight" where
  "small_search =
     and_then (search (JArr [JStr ''ab'', JStr ''b'', JStr ''aa''])) (sl_for (JStr ''a''))"


text \<open>
  What is assumed of the engine's sort: the array it leaves is a rearrangement of the
  array it was given.
\<close>

definition rearranges :: "hostsort \<Rightarrow> bool" where
  "rearranges hs = (\<forall>cmp ms. mset (hs cmp ms) = mset ms)"

text \<open>
  The custom sort setting can be used: it is \<^verbatim>\<open>null\<close> (no custom sort) or a function.
\<close>

definition sort_callable :: "searchlight \<Rightarrow> bool" where
  "sort_callable s = (case o_customSort s of Sort_function f \<Rightarrow> True | Sort_value v \<Rightarrow> v = JNull)"





section \<open>The injection of statistics, on the Map alone\<close>

text \<open>
  \<^verbatim>\<open>getItemInject_\<close> reads and writes nothing of the instance but the Map and the
  configured property. \<open>inject_item\<close> is what it makes of an item that is not an array:
  an object gets the statistics of the match under the property, anything else is left
  alone. \<open>inject_all\<close> is the pass of \<^verbatim>\<open>getItemInject_\<close> over a list of matches,
  with the values it returns and the Map it leaves (lemma \<open>map_getItemInject_pure\<close>).
\<close>

definition inject_item :: "jsval \<Rightarrow> match \<Rightarrow> jsval \<Rightarrow> jsval" where
  "inject_item property m item =
     (case item of
        JObj ps \<Rightarrow> JObj (obj_set ps (ToString property) (stats m))
      | _ \<Rightarrow> item)"

fun inject_all ::
  "jsval \<Rightarrow> (jsval \<times> jsval) list \<Rightarrow> match list \<Rightarrow> error + (jsval list \<times> (jsval \<times> jsval) list)" where
  "inject_all property C [] = Inr ([], C)"
| "inject_all property C (m # ms) =
     (case Map_get C (m_key m) of
        None \<Rightarrow>
          (case inject_all property C ms of
             Inl e \<Rightarrow> Inl e
           | Inr (xs, C') \<Rightarrow> Inr (JUndefined # xs, C'))
      | Some item \<Rightarrow>
          if item = JNull then Inl TypeError
          else
            (let item' = (case item of JArr ys \<Rightarrow> JArr (ys @ [stats m])
                                       | _ \<Rightarrow> inject_item property m item)
             in case inject_all property (Map_set C (m_key m) item') ms of
                  Inl e \<Rightarrow> Inl e
                | Inr (xs, C') \<Rightarrow> Inr (item' # xs, C')))"

text \<open>
  For the proof that a second pass repeats the first: the value returned for a match,
  from the Map before any injection; Maps that differ from it by injections only; the
  last match of a key; and the Map a pass leaves.
\<close>

definition out_item :: "jsval \<Rightarrow> (jsval \<times> jsval) list \<Rightarrow> match \<Rightarrow> jsval" where
  "out_item property C0 m =
     (case map_of C0 (m_key m) of None \<Rightarrow> JUndefined | Some item \<Rightarrow> inject_item property m item)"

definition similar :: "jsval \<Rightarrow> (jsval \<times> jsval) list \<Rightarrow> (jsval \<times> jsval) list \<Rightarrow> bool" where
  "similar property C0 C =
     (map fst C = map fst C0 \<and>
      (\<forall>k a. map_of C0 k = Some a \<longrightarrow>
         map_of C k = Some a \<or> (\<exists>m. map_of C k = Some (inject_item property m a))))"

definition last_for :: "jsval \<Rightarrow> match list \<Rightarrow> match" where
  "last_for k ms = last (filter (\<lambda>m. m_key m = k) ms)"

definition final_map ::
  "jsval \<Rightarrow> (jsval \<times> jsval) list \<Rightarrow> (jsval \<times> jsval) list \<Rightarrow> match list \<Rightarrow> jsval \<Rightarrow> jsval option" where
  "final_map p C0 C ms k =
     (if k \<in> m_key ` set ms then map_option (inject_item p (last_for k ms)) (map_of C0 k)
      else map_of C k)"

text \<open>The object that \<^verbatim>\<open>reduceInject_\<close> builds from the values returned.\<close>

definition reduce_items :: "(string \<times> jsval) list \<Rightarrow> match list \<Rightarrow> jsval list \<Rightarrow> (string \<times> jsval) list" where
  "reduce_items items ms xs =
     foldl (\<lambda>items mx. obj_set items (ToString (m_key (fst mx))) (snd mx)) items (zip ms xs)"

text \<open>
  Two instances with statistics enabled, after \<^verbatim>\<open>for('a')\<close>: one whose only item is
  the array \<^verbatim>\<open>['a']\<close>, one whose only item is the object \<^verbatim>\<open>{t: 'a'}\<close>.
\<close>

definition array_item_search :: "error + searchlight" where
  "array_item_search =
     and_then (search (JArr [JArr [JStr ''a'']]))
       (perform_all insertion_sort [For (JStr ''a''), WithStats JUndefined])"

definition object_item_search :: "error + searchlight" where
  "object_item_search =
     and_then (search (JArr [JObj [(''t'', JStr ''a'')]]))
       (perform_all insertion_sort [For (JStr ''a''), WithStats JUndefined])"

text \<open>A custom comparator that says of any two matches that the first comes first.\<close>

definition first_before :: comparator where
  "first_before getItem a b = JNum (- 1)"

text \<open>
  What the cache holds on an instance that was searched with no filter and no search
  text: the instance is ready, \<^verbatim>\<open>matches\<close> and \<^verbatim>\<open>allItems\<close> are one array, which
  holds the empty match of every key, and \<^verbatim>\<open>partial\<close> is empty.
\<close>

definition all_matched :: "searchlight \<Rightarrow> bool" where
  "all_matched s =
     (s_ready s \<and> s_shared s \<and> s_matches s = s_allItems s \<and> s_partial s = [] \<and>
      mset (s_allItems s) = mset (map i_emptyMatch (map fst (s_collection s))))"

text \<open>
  The cache flags mean what they say: results marked complete were searched and
  counted, two buckets that are one array have the same content, and the results of a
  search with no constraint are as above.
\<close>

definition cache_current :: "searchlight \<Rightarrow> bool" where
  "cache_current s =
     ((s_complete s \<longrightarrow> s_searched s \<and> s_totalMatches s = length (s_matches s)) \<and>
      (s_searched s \<and> s_shared s \<longrightarrow> s_matches s = s_allItems s) \<and>
      (s_searched s \<and> s_filters s = [] \<and> s_searchText s = [] \<longrightarrow> all_matched s))"

section \<open>Properties of the relevance engine\<close>

subsection \<open>Counting a search term\<close>

lemma split_banana_an: "split ''banana'' ''an'' = [''b'', [], ''a'']"
  by (simp add: split_def)

lemma split_banana_xy: "split ''banana'' ''xy'' = [''banana'']"
  by (simp add: split_def)

lemma lower_BANANA: "toLowerCase ''BANANA'' = ''banana''"
  by code_simp

lemma i_search_key [simp]: "m_key (i_search m subject t) = m_key m"
  by (simp add: i_search_def Let_def)

text \<open>
  Over all the search terms of a pass, the relevance grows by the sum of the counts and
  the missing terms are exactly the terms whose count is zero, each after a space.
\<close>

lemma terms_fold_relevance:
  "m_relevance (foldl (\<lambda>m t. i_search m subject t) m ts) =
     m_relevance m + sum_list (map (\<lambda>t. int (length (split subject t)) - 1) ts)"
  by (induction ts arbitrary: m) (simp_all add: i_search_def Let_def)

lemma terms_fold_missing:
  "m_missing (foldl (\<lambda>m t. i_search m subject t) m ts) =
     m_missing m @ concat (map (\<lambda>t. '' '' @ t)
                             (filter (\<lambda>t. int (length (split subject t)) - 1 = 0) ts))"
  by (induction ts arbitrary: m) (simp_all add: i_search_def Let_def)

lemma terms_fold_key [simp]:
  "m_key (foldl (\<lambda>m t. i_search m subject t) m ts) = m_key m"
  by (induction ts arbitrary: m) simp_all

text \<open>The filters leave the key and the missing terms of the match alone.\<close>

lemma i_filter_frame:
  "i_filter item m f = Inr m' \<Longrightarrow> m_key m' = m_key m \<and> m_missing m' = m_missing m"
  by (auto simp add: i_filter_def split: prod.splits if_splits option.splits sum.splits)

lemma filters_forEach_frame:
  "filters_forEach item m fs = Inr m' \<Longrightarrow> m_key m' = m_key m \<and> m_missing m' = m_missing m"
proof (induction fs arbitrary: m)
  case Nil
  then show ?case by simp
next
  case (Cons f fs)
  from Cons.prems obtain m1 where m1: "i_filter item m f = Inr m1"
    and rest: "filters_forEach item m1 fs = Inr m'"
    by (auto split: sum.splits)
  from Cons.IH [OF rest] i_filter_frame [OF m1] show ?case by simp
qed

text \<open>The scoring pass, by what its parts return.\<close>

lemma score_match_parts:
  assumes "filters_forEach item \<lparr>m_key = key, m_relevance = 0, m_missing = []\<rparr> (s_filters s) = Inr m1"
    and "subject_of s item = Inr subject0"
  shows "score_match s item key =
     Inr (foldl (\<lambda>m t. i_search m (if o_case s then subject0 else toLowerCase subject0) t)
            m1 (s_searchTerms s))"
  using assms by (simp add: score_match_def Let_def)

lemma subject_of_terms [simp]:
  "subject_of (s\<lparr>s_searchTerms := ts\<rparr>) item = subject_of s item"
  by (cases item) (simp_all add: subject_of_def)

text \<open>
  C2. Take an item whose filters and subject string are computed without an exception.
  The subject that the search terms are counted in is the item's subject string, folded
  to lower case unless the comparison is case sensitive, and the count of a term \<open>t\<close>
  is the number of pieces that this subject splits into on the separator \<open>t\<close>, minus
  one. For every term \<open>t\<close> that the pass comes to, after any terms \<open>ts\<close> that left the
  match \<open>m\<close>: when the count is greater than 0 it is added to the relevance of the match
  and nothing else changes; when it is 0 the term is appended to the missing terms after
  a space and nothing else changes. So the pass returns the match of the item's key
  whose relevance is what the filters gave plus the counts of all the search terms, and
  whose missing terms are the terms that count 0, in order.
\<close>

theorem search_term_count:
  assumes "filters_forEach item \<lparr>m_key = key, m_relevance = 0, m_missing = []\<rparr> (s_filters s) = Inr m1"
    and "subject_of s item = Inr subject0"
  shows "let subject = (if o_case s then subject0 else toLowerCase subject0);
             count = (\<lambda>t. int (length (split subject t)) - 1)
         in (\<forall>ts t m. score_match (s\<lparr>s_searchTerms := ts\<rparr>) item key = Inr m \<longrightarrow>
               (0 < count t \<longrightarrow>
                  score_match (s\<lparr>s_searchTerms := ts @ [t]\<rparr>) item key =
                    Inr (m\<lparr>m_relevance := m_relevance m + count t\<rparr>)) \<and>
               (count t = 0 \<longrightarrow>
                  score_match (s\<lparr>s_searchTerms := ts @ [t]\<rparr>) item key =
                    Inr (m\<lparr>m_missing := m_missing m @ '' '' @ t\<rparr>))) \<and>
            (\<exists>m. score_match s item key = Inr m \<and> m_key m = key \<and>
               m_relevance m = m_relevance m1 + sum_list (map count (s_searchTerms s)) \<and>
               m_missing m =
                 concat (map (\<lambda>t. '' '' @ t) (filter (\<lambda>t. count t = 0) (s_searchTerms s))))"
proof -
  let ?subject = "if o_case s then subject0 else toLowerCase subject0"
  let ?count = "\<lambda>t. int (length (split ?subject t)) - 1"
  have parts: "score_match (s\<lparr>s_searchTerms := ts\<rparr>) item key =
      Inr (foldl (\<lambda>m t. i_search m ?subject t) m1 ts)" for ts
    using score_match_parts [of item key "s\<lparr>s_searchTerms := ts\<rparr>" m1 subject0] assms
    by simp
  have step: "(0 < ?count t \<longrightarrow>
                  score_match (s\<lparr>s_searchTerms := ts @ [t]\<rparr>) item key =
                    Inr (m\<lparr>m_relevance := m_relevance m + ?count t\<rparr>)) \<and>
               (?count t = 0 \<longrightarrow>
                  score_match (s\<lparr>s_searchTerms := ts @ [t]\<rparr>) item key =
                    Inr (m\<lparr>m_missing := m_missing m @ '' '' @ t\<rparr>))"
    if "score_match (s\<lparr>s_searchTerms := ts\<rparr>) item key = Inr m" for ts t m
  proof -
    from that have m: "m = foldl (\<lambda>m t. i_search m ?subject t) m1 ts" by (simp add: parts)
    have "score_match (s\<lparr>s_searchTerms := ts @ [t]\<rparr>) item key = Inr (i_search m ?subject t)"
      by (simp add: parts m)
    then show ?thesis by (simp add: i_search_def Let_def)
  qed
  have frame: "m_key m1 = key" "m_missing m1 = []"
    using filters_forEach_frame [OF assms(1)] by simp_all
  have whole: "score_match s item key = Inr (foldl (\<lambda>m t. i_search m ?subject t) m1 (s_searchTerms s))"
    using assms by (rule score_match_parts)
  let ?m = "foldl (\<lambda>m t. i_search m ?subject t) m1 (s_searchTerms s)"
  have k: "m_key ?m = key" by (simp only: terms_fold_key frame)
  have r: "m_relevance ?m = m_relevance m1 + sum_list (map ?count (s_searchTerms s))"
    by (rule terms_fold_relevance)
  have mi: "m_missing ?m =
      concat (map (\<lambda>t. '' '' @ t) (filter (\<lambda>t. ?count t = 0) (s_searchTerms s)))"
    by (simp only: terms_fold_missing frame append_Nil)
  have "\<exists>m. score_match s item key = Inr m \<and> m_key m = key \<and>
               m_relevance m = m_relevance m1 + sum_list (map ?count (s_searchTerms s)) \<and>
               m_missing m =
                 concat (map (\<lambda>t. '' '' @ t) (filter (\<lambda>t. ?count t = 0) (s_searchTerms s)))"
    using whole k r mi by blast
  with step show ?thesis by (simp only: Let_def) blast
qed

theorem search_term_count_witness:
  "score_match (new_instance\<lparr>s_searchTerms := [''an'', ''xy'']\<rparr>) (JStr ''BANANA'') (JNum 0) =
     Inr \<lparr>m_key = JNum 0, m_relevance = 2, m_missing = '' xy''\<rparr>"
proof -
  let ?s = "new_instance\<lparr>s_searchTerms := [''an'', ''xy'']\<rparr>"
  have f: "filters_forEach (JStr ''BANANA'') \<lparr>m_key = JNum 0, m_relevance = 0, m_missing = []\<rparr>
             (s_filters ?s) = Inr \<lparr>m_key = JNum 0, m_relevance = 0, m_missing = []\<rparr>"
    by (simp add: new_instance_def)
  have sub: "subject_of ?s (JStr ''BANANA'') = Inr ''BANANA''"
    by (simp add: subject_of_def)
  have c: "\<not> o_case ?s" by (simp add: new_instance_def)
  from search_term_count [OF f sub] c obtain m where
    m: "score_match ?s (JStr ''BANANA'') (JNum 0) = Inr m" and k: "m_key m = JNum 0"
    and r: "m_relevance m = 0 + sum_list (map (\<lambda>t. int (length (split (toLowerCase ''BANANA'') t)) - 1)
               (s_searchTerms ?s))"
    and mi: "m_missing m = concat (map (\<lambda>t. '' '' @ t)
               (filter (\<lambda>t. int (length (split (toLowerCase ''BANANA'') t)) - 1 = 0) (s_searchTerms ?s)))"
    by (auto simp add: Let_def)
  have "m_relevance m = 2" using r by (simp add: lower_BANANA split_banana_an split_banana_xy)
  moreover have "m_missing m = '' xy''"
    using mi by (simp add: lower_BANANA split_banana_an split_banana_xy)
  ultimately have "m = \<lparr>m_key = JNum 0, m_relevance = 2, m_missing = '' xy''\<rparr>"
    using k by (cases m) simp
  with m show ?thesis by simp
qed

section \<open>The engine's sort\<close>

lemma rearranges_Nil: "rearranges hs \<Longrightarrow> hs cmp [] = []"
  by (metis rearranges_def mset_zero_iff)

lemma mset_insert_left: "mset (insert_left cmp x ys) = add_mset x (mset ys)"
  by (induction ys) simp_all

lemma mset_insertion_fold: "mset (foldl (\<lambda>acc x. insert_left cmp x acc) acc xs) = mset acc + mset xs"
  by (induction xs arbitrary: acc) (simp_all add: mset_insert_left)

lemma rearranges_insertion_sort: "rearranges insertion_sort"
  by (simp add: rearranges_def insertion_sort_def mset_insertion_fold)

section \<open>Replacing the constraints\<close>

text \<open>
  What \<^verbatim>\<open>for\<close> does with a text, with a filter given as an array and with a filter
  given by names: the earlier text and filters are gone, and the dirty flags are set.
\<close>

lemma sl_for_text:
  "sl_for (JStr t) s =
     Inr (s\<lparr>s_searchText := trim ('' '' @ t), s_filters := [],
             s_ready := False, s_complete := False, s_searched := False\<rparr>)"
  by (simp add: sl_for_def sl_and_def Let_def)

lemma show_nat_small: "show_nat 0 = ''0''" "show_nat (Suc 0) = ''1''" "show_nat (Suc (Suc 0)) = ''2''" "show_nat 1 = ''1''" "show_nat 2 = ''2''"
  by code_simp+

text \<open>
  Where the library keeps what a read gives, the read finds a value of the data: an own
  property comes first, and no built-in member has a name made of digits, or one of the
  names of the parts of a filter.
\<close>

lemma read_own: "own_prop v (ToString key) = Some x \<Longrightarrow> read v key = Inr x"
  by (auto simp add: read_def get_prop_def own_prop_def operand_def Let_def)

lemma proto_prop_digits:
  assumes "k \<noteq> []" and "list_all is_digit k"
  shows "proto_prop v k = None"
proof -
  from assms obtain c cs where k: "k = c # cs" and c: "is_digit c" by (cases k) auto
  have "c # cs \<notin> set (inherited_methods v)"
    using c
    by (cases v)
       (auto simp add: inherited_methods_def Object_prototype_methods_def
          Array_prototype_methods_def String_prototype_methods_def Number_prototype_methods_def
          Boolean_prototype_methods_def is_digit_def)
  moreover have "c # cs \<noteq> ''constructor''" "c # cs \<noteq> ''__proto__''"
    using c by (auto simp add: is_digit_def)
  ultimately show ?thesis by (simp add: proto_prop_def k)
qed

lemma proto_prop_index:
  "proto_prop v ''0'' = None" "proto_prop v ''1'' = None" "proto_prop v ''2'' = None"
  by (rule proto_prop_digits; simp add: is_digit_def)+

lemma proto_prop_filter_names:
  "proto_prop v ''key'' = None" "proto_prop v ''operator'' = None"
  "proto_prop v ''value'' = None"
  by (cases v; simp add: proto_prop_def inherited_methods_def Object_prototype_methods_def
      Array_prototype_methods_def String_prototype_methods_def Number_prototype_methods_def
      Boolean_prototype_methods_def)+

lemma pair_reads:
  "read (JArr [key, val]) (JNum 0) = Inr key"
  "read (JArr [key, val]) (JNum 1) = Inr val"
  "read (JArr [key, val]) (JNum 2) = Inr JUndefined"
  by (simp_all add: read_def get_prop_def own_prop_def operand_def array_index_def show_int_def
      show_nat_small proto_prop_index Let_def)

lemma sl_for_pair:
  "sl_for (JArr [key, val]) s =
     Inr (s\<lparr>s_searchText := [], s_filters := [(key, JStr ''=='', val)],
             s_ready := False, s_complete := False, s_searched := False\<rparr>)"
  by (cases val)
     (simp_all add: sl_for_def sl_and_def Let_def typeof_def isArray_def pair_reads)

lemma triple_reads:
  "read (JArr [key, operator, val]) (JNum 0) = Inr key"
  "read (JArr [key, operator, val]) (JNum 1) = Inr operator"
  "read (JArr [key, operator, val]) (JNum 2) = Inr val"
  by (simp_all add: read_def get_prop_def own_prop_def operand_def array_index_def show_int_def
      show_nat_small Let_def)

lemma sl_for_triple:
  "val \<noteq> JUndefined \<Longrightarrow>
   sl_for (JArr [key, operator, val]) s =
     Inr (s\<lparr>s_searchText := [], s_filters := [(key, operator, val)],
             s_ready := False, s_complete := False, s_searched := False\<rparr>)"
  by (cases val)
     (simp_all add: sl_for_def sl_and_def Let_def typeof_def isArray_def triple_reads)

lemma named_reads:
  "read (JObj ps) (JStr ''key'') = Inr (case map_of ps ''key'' of Some x \<Rightarrow> x | None \<Rightarrow> JUndefined)"
  "read (JObj ps) (JStr ''operator'') =
     Inr (case map_of ps ''operator'' of Some x \<Rightarrow> x | None \<Rightarrow> JUndefined)"
  "read (JObj ps) (JStr ''value'') = Inr (case map_of ps ''value'' of Some x \<Rightarrow> x | None \<Rightarrow> JUndefined)"
  by (simp_all add: read_def get_prop_def own_prop_def operand_def proto_prop_filter_names Let_def
      split: option.splits)

lemma sl_for_named:
  "sl_for (JObj ps) s =
     Inr (s\<lparr>s_searchText := [],
             s_filters :=
               [if map_of ps ''value'' = None \<or> map_of ps ''value'' = Some JUndefined
                then (case map_of ps ''key'' of Some x \<Rightarrow> x | None \<Rightarrow> JUndefined, JStr ''=='',
                      case map_of ps ''operator'' of Some x \<Rightarrow> x | None \<Rightarrow> JUndefined)
                else (case map_of ps ''key'' of Some x \<Rightarrow> x | None \<Rightarrow> JUndefined,
                      case map_of ps ''operator'' of Some x \<Rightarrow> x | None \<Rightarrow> JUndefined,
                      case map_of ps ''value'' of Some x \<Rightarrow> x | None \<Rightarrow> JUndefined)],
             s_ready := False, s_complete := False, s_searched := False\<rparr>)"
proof (cases "map_of ps ''value''")
  case None
  then show ?thesis
    by (simp add: sl_for_def sl_and_def Let_def typeof_def isArray_def named_reads)
next
  case (Some v)
  then show ?thesis
    by (cases v) (simp_all add: sl_for_def sl_and_def Let_def typeof_def isArray_def named_reads)
qed

lemma sl_for_other:
  "typeof constraint \<noteq> ''string'' \<Longrightarrow> typeof constraint \<noteq> ''object'' \<Longrightarrow>
   sl_for constraint s =
     Inr (s\<lparr>s_searchText := [], s_filters := [],
             s_ready := False, s_complete := False, s_searched := False\<rparr>)"
  by (cases constraint) (simp_all add: sl_for_def sl_and_def Let_def typeof_def)

text \<open>
  C6. The claim holds for a text, an array, an object and for any value that is not of
  type \<^verbatim>\<open>'object'\<close>; but \<^verbatim>\<open>for(null)\<close> does not return: \<^verbatim>\<open>typeof null\<close> is
  \<^verbatim>\<open>'object'\<close>, so the call reads \<^verbatim>\<open>null.key\<close> and throws, where every other
  constraint that is not a text or a filter gets the warning branch.
\<close>

theorem for_null_throws: "sl_for JNull s = Inl TypeError"
  by (simp add: sl_for_def sl_and_def typeof_def isArray_def read_def get_prop_def Let_def)

section \<open>The comparator and the iteration request\<close>

text \<open>
  When the relevances differ the comparator orders by relevance, the higher first; on a
  tie it never says that its first argument comes first.
\<close>

lemma sortComparator_tie_never_negative:
  "m_relevance a = m_relevance b \<Longrightarrow> 0 \<le> comparefn_number (i_sortComparator a b)"
  by (simp add: i_sortComparator_def comparefn_number_def ToNumber_def ToPrimitive_def)

lemma sortComparator_differs:
  "m_relevance b > m_relevance a \<Longrightarrow> comparefn_number (i_sortComparator a b) = 1"
  "m_relevance b < m_relevance a \<Longrightarrow> comparefn_number (i_sortComparator a b) = - 1"
  by (simp_all add: i_sortComparator_def comparefn_number_def ToNumber_def ToPrimitive_def)

text \<open>
  C5. On a tie of relevance the comparator returns a boolean, never a negative number:
  called on a match with key \<^verbatim>\<open>'a'\<close> and one with key \<^verbatim>\<open>'b'\<close> it returns
  \<^verbatim>\<open>false\<close>, which the sort reads as 0 (no order between them), and the other way
  round \<^verbatim>\<open>true\<close>, which it reads as 1. A sort that asks whether the comparator is
  negative therefore never moves the lower key forward: with the insertion sort above,
  the sorted matches of \<^verbatim>\<open>search({b: 'x', a: 'x'}).for('x').sorted()\<close> keep \<^verbatim>\<open>b\<close>
  before \<^verbatim>\<open>a\<close>.
\<close>

theorem sortComparator_tie_is_boolean:
  "i_sortComparator \<lparr>m_key = JStr ''a'', m_relevance = 1, m_missing = []\<rparr>
                    \<lparr>m_key = JStr ''b'', m_relevance = 1, m_missing = []\<rparr> = JBool False \<and>
   comparefn_number (JBool False) = 0 \<and>
   i_sortComparator \<lparr>m_key = JStr ''b'', m_relevance = 1, m_missing = []\<rparr>
                    \<lparr>m_key = JStr ''a'', m_relevance = 1, m_missing = []\<rparr> = JBool True \<and>
   comparefn_number (JBool True) = 1 \<and>
   result_of (and_then (and_then (search (JObj [(''b'', JStr ''x''), (''a'', JStr ''x'')]))
                          (sl_for (JStr ''x'')))
                (\<lambda>s. get_matches insertion_sort (sl_sorted s))) =
     Inr (JObj [(''b'', JStr ''x''), (''a'', JStr ''x'')])"
proof (intro conjI)
  show "i_sortComparator \<lparr>m_key = JStr ''a'', m_relevance = 1, m_missing = []\<rparr>
          \<lparr>m_key = JStr ''b'', m_relevance = 1, m_missing = []\<rparr> = JBool False"
    by (simp add: i_sortComparator_def js_lt_def less_than_def ToPrimitive_def)
  show "i_sortComparator \<lparr>m_key = JStr ''b'', m_relevance = 1, m_missing = []\<rparr>
          \<lparr>m_key = JStr ''a'', m_relevance = 1, m_missing = []\<rparr> = JBool True"
    by (simp add: i_sortComparator_def js_lt_def less_than_def ToPrimitive_def)
  show "comparefn_number (JBool False) = 0"
    by (simp add: comparefn_number_def ToNumber_def ToPrimitive_def)
  show "comparefn_number (JBool True) = 1"
    by (simp add: comparefn_number_def ToNumber_def ToPrimitive_def)
  show "result_of (and_then (and_then (search (JObj [(''b'', JStr ''x''), (''a'', JStr ''x'')]))
                          (sl_for (JStr ''x'')))
                (\<lambda>s. get_matches insertion_sort (sl_sorted s))) =
     Inr (JObj [(''b'', JStr ''x''), (''a'', JStr ''x'')])"
    by code_simp
qed

text \<open>
  C9. Requesting iteration throws on every instance: \<^verbatim>\<open>[Symbol.iterator]\<close> calls
  \<^verbatim>\<open>this.updateMatches_()\<close>, and the instance has no member of that name (the
  function lives in \<^verbatim>\<open>fn_\<close>, where the accessors call it). No sequence is produced,
  the first time or the second.
\<close>

theorem iteration_request_throws: "Symbol_iterator hs s = Inl TypeError"
  by (simp add: Symbol_iterator_def instance_members_def prototype_members_def)

section \<open>The subject string under restricted keys\<close>






text \<open>
  The empty search term, which two spaces in a row in the search text produce, is
  counted on the empty subject as -1: the subject splits into no piece at all.
\<close>

lemma empty_term_on_empty_subject:
  "i_search m [] [] = m\<lparr>m_relevance := m_relevance m - 1\<rparr>"
  by (simp add: i_search_def split_def)




section \<open>The classification pass\<close>

lemma subject_of_cong:
  "s_keys s' = s_keys s \<Longrightarrow> subject_of s' item = subject_of s item"
  by (cases item) (simp_all add: subject_of_def)

lemma score_match_cong:
  "s_filters s' = s_filters s \<Longrightarrow> s_keys s' = s_keys s \<Longrightarrow> o_case s' = o_case s \<Longrightarrow>
   s_searchTerms s' = s_searchTerms s \<Longrightarrow> score_match s' item key = score_match s item key"
  by (simp add: score_match_def subject_of_cong [of s' s] split: sum.splits)

lemma i_filter_key: "i_filter item m f = Inr m' \<Longrightarrow> m_key m' = m_key m"
  by (auto simp add: i_filter_def split: prod.splits if_splits option.splits sum.splits)

lemma filters_forEach_key: "filters_forEach item m fs = Inr m' \<Longrightarrow> m_key m' = m_key m"
  by (induction fs arbitrary: m) (auto split: sum.splits dest: i_filter_key)

lemma score_match_key: "score_match s item key = Inr m \<Longrightarrow> m_key m = key"
  by (auto simp add: score_match_def Let_def split: sum.splits dest: filters_forEach_key)

lemma calculateRelevance_push:
  assumes "i_calculateRelevance s item key = Inr s'" and "\<not> s_shared s"
  shows "\<exists>m. score_match s item key = Inr m \<and>
     s' = s\<lparr>s_allItems := s_allItems s @ [m],
            s_partial := s_partial s @ partial_of (s_threshold s) [m],
            s_matches := s_matches s @ full_of (s_threshold s) [m]\<rparr>"
  using assms
  by (auto simp add: i_calculateRelevance_def Let_def set_allItems_def set_matches_def
      partial_of_def full_of_def split: sum.splits)

lemma forEach_push:
  assumes "collection_forEach s entries = Inr s'" and "\<not> s_shared s"
  shows "\<exists>ms. scored s entries ms \<and>
     s' = s\<lparr>s_allItems := s_allItems s @ ms,
            s_partial := s_partial s @ partial_of (s_threshold s) ms,
            s_matches := s_matches s @ full_of (s_threshold s) ms\<rparr>"
  using assms
proof (induction entries arbitrary: s)
  case Nil
  then show ?case by (simp add: scored_def partial_of_def full_of_def)
next
  case (Cons entry entries)
  obtain key item where entry: "entry = (key, item)" by (cases entry)
  from Cons.prems entry obtain s1 where s1: "i_calculateRelevance s item key = Inr s1"
    and rest: "collection_forEach s1 entries = Inr s'"
    by (auto split: sum.splits)
  from calculateRelevance_push [OF s1 Cons.prems(2)] obtain m where
    m: "score_match s item key = Inr m" and
    s1_eq: "s1 = s\<lparr>s_allItems := s_allItems s @ [m],
            s_partial := s_partial s @ partial_of (s_threshold s) [m],
            s_matches := s_matches s @ full_of (s_threshold s) [m]\<rparr>"
    by blast
  have ns: "\<not> s_shared s1" using s1_eq Cons.prems(2) by simp
  from Cons.IH [OF rest ns] obtain ms where
    ms: "scored s1 entries ms" and
    s'_eq: "s' = s1\<lparr>s_allItems := s_allItems s1 @ ms,
            s_partial := s_partial s1 @ partial_of (s_threshold s1) ms,
            s_matches := s_matches s1 @ full_of (s_threshold s1) ms\<rparr>"
    by blast
  have same: "\<And>item key. score_match s1 item key = score_match s item key"
    by (rule score_match_cong) (simp_all add: s1_eq)
  have "scored s (entry # entries) (m # ms)"
    using ms m entry by (simp add: scored_def same)
  moreover have "s' = s\<lparr>s_allItems := s_allItems s @ (m # ms),
            s_partial := s_partial s @ partial_of (s_threshold s) (m # ms),
            s_matches := s_matches s @ full_of (s_threshold s) (m # ms)\<rparr>"
    by (simp add: s'_eq s1_eq partial_of_def full_of_def)
  ultimately show ?case by blast
qed

lemma scored_keys: "scored s entries ms \<Longrightarrow> map m_key ms = map fst entries"
  unfolding scored_def
  by (induction entries ms rule: list_all2_induct) (auto dest: score_match_key)

text \<open>The two outcomes of a search.\<close>

lemma performSearch_result:
  assumes "fn_performSearch s = Inr s'"
  shows "(fst (fn_isConstrained s) \<and>
          (\<exists>ms. scored (fn_updateConstraints s) (s_collection s) ms \<and>
             s' = (fn_updateConstraints s)\<lparr>s_allItems := ms,
                    s_matches := full_of (s_threshold (fn_updateConstraints s)) ms,
                    s_partial := partial_of (s_threshold (fn_updateConstraints s)) ms,
                    s_shared := False, s_searched := True\<rparr>)) \<or>
         (\<not> fst (fn_isConstrained s) \<and>
          s' = (fn_updateConstraints s)\<lparr>s_allItems := map i_emptyMatch (map fst (s_collection s)),
                 s_matches := map i_emptyMatch (map fst (s_collection s)),
                 s_shared := True, s_partial := [], s_searched := True\<rparr>)"
proof (cases "fst (fn_isConstrained s)")
  case True
  let ?s1 = "fn_updateConstraints s"
  let ?s0 = "?s1\<lparr>s_allItems := [], s_matches := [], s_partial := [], s_shared := False\<rparr>"
  have c: "fn_isConstrained s = (True, ?s1)"
    using True by (simp add: fn_isConstrained_def Let_def)
  have coll: "s_collection ?s1 = s_collection s"
    by (simp add: fn_updateConstraints_def Let_def)
  from assms c coll obtain s2 where s2: "collection_forEach ?s0 (s_collection s) = Inr s2"
    and s': "s' = s2\<lparr>s_searched := True\<rparr>"
    by (auto simp add: fn_performSearch_def split: sum.splits)
  from forEach_push [OF s2] obtain ms where ms: "scored ?s0 (s_collection s) ms"
    and s2_eq: "s2 = ?s0\<lparr>s_allItems := s_allItems ?s0 @ ms,
            s_partial := s_partial ?s0 @ partial_of (s_threshold ?s0) ms,
            s_matches := s_matches ?s0 @ full_of (s_threshold ?s0) ms\<rparr>"
    by auto
  have same: "\<And>item key. score_match ?s0 item key = score_match ?s1 item key"
    by (rule score_match_cong) simp_all
  have "scored ?s1 (s_collection s) ms" using ms by (simp add: scored_def same)
  moreover have "s' = ?s1\<lparr>s_allItems := ms,
                    s_matches := full_of (s_threshold ?s1) ms,
                    s_partial := partial_of (s_threshold ?s1) ms,
                    s_shared := False, s_searched := True\<rparr>"
    by (simp add: s' s2_eq)
  ultimately show ?thesis using True by blast
next
  case False
  then have c: "fn_isConstrained s = (False, fn_updateConstraints s)"
    by (simp add: fn_isConstrained_def Let_def)
  have coll: "s_collection (fn_updateConstraints s) = s_collection s"
    by (simp add: fn_updateConstraints_def Let_def)
  show ?thesis using assms False
    by (auto simp add: fn_performSearch_def c coll Let_def)
qed

lemma count_list_three_filters:
  assumes "\<And>m. m \<in> set ms \<Longrightarrow>
             (P m \<and> \<not> Q m \<and> \<not> R m) \<or> (\<not> P m \<and> Q m \<and> \<not> R m) \<or> (\<not> P m \<and> \<not> Q m \<and> R m)"
  shows "count_list (map f (filter P ms)) k + count_list (map f (filter Q ms)) k
           + count_list (map f (filter R ms)) k = count_list (map f ms) k"
  using assms by (induction ms) (simp, fastforce)

lemma count_list_distinct: "distinct xs \<Longrightarrow> x \<in> set xs \<Longrightarrow> count_list xs x = 1"
  by (induction xs) auto

lemma updateConstraints_threshold:
  "threshold_current s \<Longrightarrow>
   s_threshold (fn_updateConstraints s) =
     o_baseThreshold s + length (s_filters s)
       + (if s_searchTerms (fn_updateConstraints s) \<noteq> [] then 1 else 0)"
  by (simp add: threshold_current_def fn_updateConstraints_def Let_def)

lemma updateConstraints_fields [simp]:
  "s_collection (fn_updateConstraints s) = s_collection s"
  "s_filters (fn_updateConstraints s) = s_filters s"
  "o_baseThreshold (fn_updateConstraints s) = o_baseThreshold s"
  by (simp_all add: fn_updateConstraints_def Let_def)

lemma buckets_count:
  assumes "distinct (map m_key ms)" and "k \<in> set (map m_key ms)"
  shows "count_list (map m_key (full_of t ms)) k + count_list (map m_key (partial_of t ms)) k
     + count_list (map m_key
         (filter (\<lambda>m. m \<notin> set (full_of t ms) \<and> m \<notin> set (partial_of t ms)) ms)) k = 1"
proof -
  have "filter (\<lambda>m. m \<notin> set (full_of t ms) \<and> m \<notin> set (partial_of t ms)) ms =
        filter (\<lambda>m. \<not> (m_relevance m \<noteq> 0 \<and> \<not> m_relevance m < int t) \<and>
                    \<not> (m_relevance m \<noteq> 0 \<and> m_relevance m < int t)) ms"
    by (rule filter_cong) (auto simp add: full_of_def partial_of_def)
  then have "count_list (map m_key (full_of t ms)) k + count_list (map m_key (partial_of t ms)) k
     + count_list (map m_key
         (filter (\<lambda>m. m \<notin> set (full_of t ms) \<and> m \<notin> set (partial_of t ms)) ms)) k
     = count_list (map m_key ms) k"
    unfolding full_of_def partial_of_def
    by (simp only:) (rule count_list_three_filters, auto)
  then show ?thesis using assms by (simp add: count_list_distinct)
qed

lemma one_bucket_core:
  assumes "fn_performSearch s = Inr s'" and "distinct (map fst (s_collection s))"
  shows "s_collection s' = s_collection s \<and>
     length (s_allItems s') = length (s_collection s') \<and>
     map m_key (s_allItems s') = map fst (s_collection s') \<and>
     (\<forall>k \<in> set (map fst (s_collection s')).
        count_list (map m_key (s_matches s')) k + count_list (map m_key (s_partial s')) k
          + count_list (map m_key (excluded s')) k = 1)"
  using performSearch_result [OF assms(1)]
proof (elim disjE conjE exE)
  fix ms
  let ?s1 = "fn_updateConstraints s"
  let ?t = "s_threshold ?s1"
  assume sc: "scored ?s1 (s_collection s) ms"
    and s': "s' = ?s1\<lparr>s_allItems := ms, s_matches := full_of ?t ms,
                    s_partial := partial_of ?t ms,
                    s_shared := False, s_searched := True\<rparr>"
  have keys: "map m_key ms = map fst (s_collection s)" using sc by (rule scored_keys)
  have len: "length ms = length (s_collection s)"
    using arg_cong [OF keys, of length] by simp
  have d: "distinct (map m_key ms)" using assms(2) keys by simp
  have fields: "s_collection s' = s_collection s" "s_allItems s' = ms"
    "s_matches s' = full_of ?t ms" "s_partial s' = partial_of ?t ms"
    by (simp_all add: s')
  have ex: "excluded s' =
      filter (\<lambda>m. m \<notin> set (full_of ?t ms) \<and> m \<notin> set (partial_of ?t ms)) ms"
    by (simp add: excluded_def fields)
  have "count_list (map m_key (s_matches s')) k + count_list (map m_key (s_partial s')) k
          + count_list (map m_key (excluded s')) k = 1"
    if "k \<in> set (map fst (s_collection s'))" for k
  proof -
    from that have "k \<in> set (map m_key ms)" by (simp only: fields keys)
    from buckets_count [OF d this, of ?t] show ?thesis by (simp only: fields ex)
  qed
  then show ?thesis using keys len fields by auto
next
  let ?s1 = "fn_updateConstraints s"
  let ?all = "map i_emptyMatch (map fst (s_collection s))"
  assume s': "s' = ?s1\<lparr>s_allItems := ?all, s_matches := ?all, s_shared := True,
                 s_partial := [], s_searched := True\<rparr>"
  have keys: "map m_key ?all = map fst (s_collection s)"
    by (simp add: i_emptyMatch_def comp_def)
  have d: "distinct (map m_key ?all)" using assms(2) by (simp only: keys)
  have fields: "s_collection s' = s_collection s" "s_allItems s' = ?all"
    "s_matches s' = ?all" "s_partial s' = []"
    by (simp_all add: s')
  have ex: "excluded s' = []"
    by (simp add: excluded_def fields)
  have "count_list (map m_key (s_matches s')) k + count_list (map m_key (s_partial s')) k
          + count_list (map m_key (excluded s')) k = 1"
    if "k \<in> set (map fst (s_collection s'))" for k
  proof -
    from that have "k \<in> set (map m_key ?all)" by (simp only: fields keys)
    from count_list_distinct [OF d this] show ?thesis by (simp add: fields ex)
  qed
  moreover have "length (s_allItems s') = length (s_collection s')"
    by (simp add: fields)
  ultimately show ?thesis using keys fields by auto
qed

lemma classification_core:
  assumes "fn_performSearch s = Inr s'" and "threshold_current s"
  shows "s_threshold s' = o_baseThreshold s' + length (s_filters s')
                            + (if s_searchTerms s' \<noteq> [] then 1 else 0) \<and>
     (s_searchTerms s' \<noteq> [] \<or> s_filters s' \<noteq> [] \<longrightarrow> spec_classified_by_score s')"
  using performSearch_result [OF assms(1)]
proof (elim disjE conjE exE)
  fix ms
  let ?s1 = "fn_updateConstraints s"
  assume c: "fst (fn_isConstrained s)"
    and s': "s' = ?s1\<lparr>s_allItems := ms, s_matches := full_of (s_threshold ?s1) ms,
                    s_partial := partial_of (s_threshold ?s1) ms,
                    s_shared := False, s_searched := True\<rparr>"
  have t: "s_threshold ?s1 = o_baseThreshold s + length (s_filters s)
       + (if s_searchTerms ?s1 \<noteq> [] then 1 else 0)"
    using assms(2) by (rule updateConstraints_threshold)
  from c have "s_searchTerms ?s1 \<noteq> [] \<or> s_filters s \<noteq> []"
    by (simp add: fn_isConstrained_def Let_def)
  with t have pos: "0 < s_threshold ?s1" by auto
  have "spec_classified_by_score s'"
    using pos by (auto simp add: spec_classified_by_score_def s' full_of_def partial_of_def)
  then show ?thesis using t by (simp add: s')
next
  let ?s1 = "fn_updateConstraints s"
  assume c: "\<not> fst (fn_isConstrained s)"
    and s': "s' = ?s1\<lparr>s_allItems := map i_emptyMatch (map fst (s_collection s)),
                 s_matches := map i_emptyMatch (map fst (s_collection s)), s_shared := True,
                 s_partial := [], s_searched := True\<rparr>"
  have t: "s_threshold ?s1 = o_baseThreshold s + length (s_filters s)
       + (if s_searchTerms ?s1 \<noteq> [] then 1 else 0)"
    using assms(2) by (rule updateConstraints_threshold)
  from c have "s_searchTerms ?s1 = [] \<and> s_filters s = []"
    by (simp add: fn_isConstrained_def Let_def)
  then show ?thesis using t by (simp add: s')
qed

section \<open>The custom sort setting\<close>

lemma updateConstraints_customSort:
  "o_customSort (fn_updateConstraints s) = o_customSort s"
  by (simp add: fn_updateConstraints_def Let_def)

lemma performSearch_customSort:
  "fn_performSearch s = Inr s' \<Longrightarrow> o_customSort s' = o_customSort s"
  using performSearch_result [of s s'] by (auto simp add: updateConstraints_customSort)

lemma performSort_throws:
  "\<not> sort_callable s \<Longrightarrow> fn_performSort hs s ms = Inl TypeError"
  by (auto simp add: fn_performSort_def fn_isConstrained_def Let_def sort_callable_def
      updateConstraints_customSort split: sort_setting.splits)


lemma performSort_state:
  assumes "fn_performSort hs s ms = Inr (s', ms')"
  shows "s' = s \<or> s' = fn_updateConstraints s"
  using assms
  by (auto simp add: fn_performSort_def fn_isConstrained_def Let_def
      split: sort_setting.splits if_splits)

lemma performSort_permutes:
  assumes "rearranges hs" and "fn_performSort hs s ms = Inr (s', ms')"
  shows "mset ms' = mset ms"
proof -
  have r: "\<And>cmp xs. mset (hs cmp xs) = mset xs" using assms(1) by (simp add: rearranges_def)
  show ?thesis
    using assms(2)
    by (auto simp add: fn_performSort_def fn_isConstrained_def Let_def r
        split: sort_setting.splits if_splits)
qed


text \<open>
  Once \<^verbatim>\<open>sortUsing\<close> was given a value that is neither \<^verbatim>\<open>null\<close> nor a function,
  the next update of the matches throws.
\<close>

lemma updateMatches_not_callable:
  assumes "v \<noteq> JNull"
  shows "fn_updateMatches hs (sl_sortUsing (Sort_value v) s) = Inl TypeError"
proof -
  let ?s = "sl_sortUsing (Sort_value v) s"
  have nc: "\<not> s_complete ?s" by (simp add: sl_sortUsing_def)
  have bad: "\<not> sort_callable s1" if "o_customSort s1 = Sort_value v" for s1
    using that assms by (simp add: sort_callable_def)
  show ?thesis
  proof (cases "if \<not> s_searched ?s then fn_performSearch ?s else Inr ?s")
    case (Inl e)
    then show ?thesis using nc by (cases e) (simp add: fn_updateMatches_def)
  next
    case (Inr s1)
    have "o_customSort s1 = Sort_value v"
    proof (cases "s_searched ?s")
      case True
      then show ?thesis using Inr by (auto simp add: sl_sortUsing_def)
    next
      case False
      then have "fn_performSearch ?s = Inr s1" using Inr by simp
      then have "o_customSort s1 = o_customSort ?s" by (rule performSearch_customSort)
      then show ?thesis by (simp add: sl_sortUsing_def)
    qed
    then have "fn_performSort hs s1 (s_matches s1) = Inl TypeError"
      using bad performSort_throws by blast
    then show ?thesis using nc Inr by (simp add: fn_updateMatches_def)
  qed
qed

section \<open>Initialisation and its error\<close>

subsection \<open>A failed initialisation stays failed\<close>






















subsection \<open>What initialisation returns\<close>













section \<open>Every instance is well formed\<close>

lemma Map_set_keys: "set (map fst (Map_set m k v)) = insert k (set (map fst m))"
proof (induction m)
  case Nil
  then show ?case by simp
next
  case (Cons e m)
  obtain k' v' where e: "e = (k', v')" by (cases e)
  show ?case
  proof (cases "k' = k")
    case True
    then show ?thesis by (simp add: e)
  next
    case False
    have "set (map fst (Map_set (e # m) k v)) = insert k' (set (map fst (Map_set m k v)))"
      using False by (simp add: e)
    also have "\<dots> = insert k' (insert k (set (map fst m)))" by (simp only: Cons.IH)
    also have "\<dots> = insert k (set (map fst (e # m)))" by (simp add: e insert_commute)
    finally show ?thesis .
  qed
qed

lemma Map_set_distinct: "distinct (map fst m) \<Longrightarrow> distinct (map fst (Map_set m k v))"
proof (induction m)
  case Nil
  then show ?case by simp
next
  case (Cons e m)
  obtain k' v' where e: "e = (k', v')" by (cases e)
  show ?case
  proof (cases "k' = k")
    case True
    then show ?thesis using Cons.prems by (simp add: e)
  next
    case False
    have "k' \<notin> set (map fst (Map_set m k v))"
      using Cons.prems False by (simp only: Map_set_keys) (simp add: e)
    then show ?thesis using Cons False by (simp add: e)
  qed
qed

lemma Map_new_distinct_aux:
  "distinct (map fst m) \<Longrightarrow> distinct (map fst (foldl (\<lambda>m (k, v). Map_set m k v) m entries))"
  by (induction entries arbitrary: m) (auto simp add: Map_set_distinct)

lemma Map_new_distinct: "distinct (map fst (Map_new entries))"
  by (simp add: Map_new_def Map_new_distinct_aux)

lemma well_formed_search: "search collection = Inr s \<Longrightarrow> well_formed s"
  by (auto simp add: search_def fn_collection_def well_formed_def threshold_current_def
      new_instance_def Map_new_distinct split: sum.splits jsval.splits if_splits prod.splits)

lemma well_formed_updateConstraints: "well_formed s \<Longrightarrow> well_formed (fn_updateConstraints s)"
  by (simp add: well_formed_def threshold_current_def fn_updateConstraints_def Let_def)

lemma well_formed_buckets:
  "well_formed s \<Longrightarrow>
   well_formed (s\<lparr>s_allItems := a, s_matches := b, s_partial := c, s_shared := d, s_searched := e\<rparr>)"
  by (simp add: well_formed_def threshold_current_def)

lemma well_formed_performSearch:
  assumes "well_formed s" and "fn_performSearch s = Inr s'"
  shows "well_formed s'"
  using performSearch_result [OF assms(2)] well_formed_updateConstraints [OF assms(1)]
  by (auto simp add: well_formed_def threshold_current_def)

lemma well_formed_performSort:
  "well_formed s \<Longrightarrow> fn_performSort hs s ms = Inr (s', ms') \<Longrightarrow> well_formed s'"
  using well_formed_updateConstraints [of s] performSort_state [of hs s ms s' ms'] by auto

lemma well_formed_updateMatches:
  assumes "well_formed s" and "fn_updateMatches hs s = Inr s'"
  shows "well_formed s'"
proof (cases "s_complete s")
  case True
  then show ?thesis using assms by (simp add: fn_updateMatches_def)
next
  case False
  from assms(2) False obtain s1 where
    s1: "(if \<not> s_searched s then fn_performSearch s else Inr s) = Inr s1"
    by (auto simp add: fn_updateMatches_def split: sum.splits)
  then have w1: "well_formed s1"
    using assms(1) well_formed_performSearch by (auto split: if_splits)
  from assms(2) False s1 obtain s2 ms1 where
    p: "fn_performSort hs s1 (s_matches s1) = Inr (s2, ms1)"
    by (auto simp add: fn_updateMatches_def split: sum.splits)
  from well_formed_performSort [OF w1 p] have w2: "well_formed s2" .
  from assms(2) False s1 p have
    "s' = (set_matches s2 ms1)\<lparr>s_totalMatches := length (s_matches (set_matches s2 ms1)),
          s_index := 0, s_lastIndex := int (length (s_matches (set_matches s2 ms1))) - 1,
          s_complete := True\<rparr>"
    by (simp add: fn_updateMatches_def Let_def)
  then show ?thesis using w2
    by (simp add: well_formed_def threshold_current_def set_matches_def)
qed

lemma well_formed_getItemInject:
  "well_formed s \<Longrightarrow> fn_getItemInject s m = Inr (x, s') \<Longrightarrow> well_formed s'"
  by (auto simp add: fn_getItemInject_def well_formed_def threshold_current_def Let_def
      Map_set_distinct split: option.splits jsval.splits)

lemma well_formed_map_getItemInject:
  "well_formed s \<Longrightarrow> map_getItemInject s ms = Inr (xs, s') \<Longrightarrow> well_formed s'"
proof (induction ms arbitrary: s xs)
  case Nil
  then show ?case by simp
next
  case (Cons m ms)
  then show ?case
    by (auto split: sum.splits prod.splits dest: well_formed_getItemInject)
qed

lemma well_formed_reduce_inject:
  "well_formed s \<Longrightarrow> reduce_inject s items ms = Inr (r, s') \<Longrightarrow> well_formed s'"
proof (induction ms arbitrary: s items)
  case Nil
  then show ?case by simp
next
  case (Cons m ms)
  then show ?case
    by (auto split: sum.splits prod.splits dest: well_formed_getItemInject)
qed

lemma well_formed_toOriginalFormat:
  "well_formed s \<Longrightarrow> fn_toOriginalFormat s ms = Inr (r, s') \<Longrightarrow> well_formed s'"
  by (auto simp add: fn_toOriginalFormat_def split: if_splits sum.splits prod.splits
      dest: well_formed_map_getItemInject well_formed_reduce_inject)

lemma sl_and_fields:
  assumes "sl_and c s = Inr s'"
  shows "s_collection s' = s_collection s \<and> \<not> s_ready s'"
proof (cases c)
  case (JStr t)
  then show ?thesis using assms by (auto simp add: sl_and_def Let_def)
next
  case (JArr xs)
  then show ?thesis using assms
    by (auto simp add: sl_and_def Let_def typeof_def isArray_def split: sum.splits)
next
  case (JObj ps)
  then show ?thesis using assms
    by (auto simp add: sl_and_def Let_def typeof_def isArray_def split: sum.splits)
next
  case JNull
  then show ?thesis using assms
    by (simp add: sl_and_def Let_def typeof_def isArray_def read_def get_prop_def)
qed (use assms in \<open>auto simp add: sl_and_def Let_def typeof_def\<close>)

lemma sl_or_fields:
  assumes "sl_or c s = Inr s'"
  shows "s_collection s' = s_collection s \<and> \<not> s_ready s'"
  using assms by (cases c) (auto simp add: sl_or_def Let_def split: sum.splits)

lemma well_formed_and: "well_formed s \<Longrightarrow> sl_and c s = Inr s' \<Longrightarrow> well_formed s'"
  using sl_and_fields [of c s s'] by (simp add: well_formed_def threshold_current_def)

lemma well_formed_for: "well_formed s \<Longrightarrow> sl_for c s = Inr s' \<Longrightarrow> well_formed s'"
  using sl_and_fields [of c "s\<lparr>s_searchText := [], s_filters := []\<rparr>" s']
  by (simp add: sl_for_def well_formed_def threshold_current_def)

lemma well_formed_or: "well_formed s \<Longrightarrow> sl_or c s = Inr s' \<Longrightarrow> well_formed s'"
  using sl_or_fields [of c s s'] by (simp add: well_formed_def threshold_current_def)

lemma well_formed_in: "well_formed s \<Longrightarrow> sl_in c s = Inr s' \<Longrightarrow> well_formed s'"
  using sl_or_fields [of c "s\<lparr>s_keys := []\<rparr>" s']
  by (simp add: sl_in_def well_formed_def threshold_current_def)

lemma well_formed_settings:
  assumes "well_formed s"
  shows "well_formed (sl_sorted s)" "well_formed (sl_unsorted s)"
    "well_formed (sl_sortUsing fn s)" "well_formed (sl_compareCase s)"
    "well_formed (sl_ignoreCase s)" "well_formed (sl_withStats x s)"
    "well_formed (sl_withoutStats s)"
  using assms
  by (simp_all add: well_formed_def threshold_current_def sl_sorted_def sl_unsorted_def
      sl_sortUsing_def sl_compareCase_def sl_ignoreCase_def sl_withStats_def
      sl_withoutStats_def Let_def)

lemma well_formed_then:
  assumes "well_formed s" and "sl_then hs s = Inr (out, s')"
  shows "well_formed s'"
proof -
  from assms(2) have "fn_updateMatches hs s = Inr s'"
    by (simp add: sl_then_def split: sum.splits)
  with assms(1) show ?thesis by (rule well_formed_updateMatches)
qed

lemma well_formed_length:
  assumes "well_formed s" and "get_length hs s = Inr (n, s')"
  shows "well_formed s'"
proof -
  from assms(2) have "fn_updateMatches hs s = Inr s'"
    by (simp add: get_length_def split: sum.splits)
  with assms(1) show ?thesis by (rule well_formed_updateMatches)
qed

lemma well_formed_matches:
  assumes "well_formed s" and "get_matches hs s = Inr (r, s')"
  shows "well_formed s'"
proof -
  from assms(2) obtain s1 where s1: "fn_updateMatches hs s = Inr s1"
    and f: "fn_toOriginalFormat s1 (s_matches s1) = Inr (r, s')"
    by (simp add: get_matches_def split: sum.splits)
  from assms(1) s1 have "well_formed s1" by (rule well_formed_updateMatches)
  then show ?thesis using f by (rule well_formed_toOriginalFormat)
qed

lemma well_formed_partialMatches:
  assumes "well_formed s" and "get_partialMatches hs s = Inr (r, s')"
  shows "well_formed s'"
proof -
  from assms(2) obtain s1 where s1: "fn_updateMatches hs s = Inr s1"
    by (auto simp add: get_partialMatches_def split: sum.splits)
  from assms(2) s1 obtain s2 ms1 where p: "fn_performSort hs s1 (s_partial s1) = Inr (s2, ms1)"
    by (auto simp add: get_partialMatches_def split: sum.splits)
  have "well_formed s2"
    using well_formed_performSort [OF well_formed_updateMatches [OF assms(1) s1] p] .
  then have "well_formed (s2\<lparr>s_partial := ms1\<rparr>)"
    by (simp add: well_formed_def threshold_current_def)
  moreover have "fn_toOriginalFormat (s2\<lparr>s_partial := ms1\<rparr>) ms1 = Inr (r, s')"
    using assms(2) s1 p by (simp add: get_partialMatches_def)
  ultimately show ?thesis by (rule well_formed_toOriginalFormat)
qed

lemma well_formed_allMatches:
  assumes "well_formed s" and "get_allMatches hs s = Inr (r, s')"
  shows "well_formed s'"
proof -
  from assms(2) obtain s1 where s1: "fn_updateMatches hs s = Inr s1"
    by (auto simp add: get_allMatches_def split: sum.splits)
  from assms(2) s1 obtain s2 ms1 where
    p: "fn_performSort hs s1 (s_matches s1 @ s_partial s1) = Inr (s2, ms1)"
    by (auto simp add: get_allMatches_def split: sum.splits)
  have "well_formed s2"
    using well_formed_performSort [OF well_formed_updateMatches [OF assms(1) s1] p] .
  moreover have "fn_toOriginalFormat s2 ms1 = Inr (r, s')"
    using assms(2) s1 p by (simp add: get_allMatches_def)
  ultimately show ?thesis by (rule well_formed_toOriginalFormat)
qed

lemma well_formed_allItems:
  assumes "well_formed s" and "get_allItems hs s = Inr (r, s')"
  shows "well_formed s'"
proof -
  from assms(2) obtain s1 where s1: "fn_updateMatches hs s = Inr s1"
    by (auto simp add: get_allItems_def split: sum.splits)
  from assms(2) s1 obtain s2 ms1 where p: "fn_performSort hs s1 (s_allItems s1) = Inr (s2, ms1)"
    by (auto simp add: get_allItems_def split: sum.splits)
  have "well_formed s2"
    using well_formed_performSort [OF well_formed_updateMatches [OF assms(1) s1] p] .
  then have "well_formed (set_allItems s2 ms1)"
    by (simp add: well_formed_def threshold_current_def set_allItems_def)
  moreover have "fn_toOriginalFormat (set_allItems s2 ms1) ms1 = Inr (r, s')"
    using assms(2) s1 p by (simp add: get_allItems_def)
  ultimately show ?thesis by (rule well_formed_toOriginalFormat)
qed

lemma well_formed_perform:
  assumes "well_formed s" and "perform hs c s = Inr s'"
  shows "well_formed s'"
proof (cases c)
  case (For x) then show ?thesis using assms by (simp add: perform_def well_formed_for)
next
  case (And x) then show ?thesis using assms by (simp add: perform_def well_formed_and)
next
  case (In x) then show ?thesis using assms by (simp add: perform_def well_formed_in)
next
  case (Or x) then show ?thesis using assms by (simp add: perform_def well_formed_or)
next
  case Then
  then show ?thesis using assms
    by (auto simp add: perform_def state_of_def split: sum.splits dest: well_formed_then)
next
  case Length
  then show ?thesis using assms
    by (auto simp add: perform_def state_of_def split: sum.splits dest: well_formed_length)
next
  case Matches
  then show ?thesis using assms
    by (auto simp add: perform_def state_of_def split: sum.splits dest: well_formed_matches)
next
  case PartialMatches
  then show ?thesis using assms
    by (auto simp add: perform_def state_of_def split: sum.splits dest: well_formed_partialMatches)
next
  case AllMatches
  then show ?thesis using assms
    by (auto simp add: perform_def state_of_def split: sum.splits dest: well_formed_allMatches)
next
  case AllItems
  then show ?thesis using assms
    by (auto simp add: perform_def state_of_def split: sum.splits dest: well_formed_allItems)
qed (use assms in \<open>auto simp add: perform_def well_formed_settings\<close>)

lemma well_formed_perform_all:
  "well_formed s \<Longrightarrow> perform_all hs cs s = Inr s' \<Longrightarrow> well_formed s'"
proof (induction cs arbitrary: s)
  case Nil
  then show ?case by simp
next
  case (Cons c cs)
  then show ?case by (auto split: sum.splits dest: well_formed_perform)
qed

lemma reachable_well_formed: "reachable hs s \<Longrightarrow> well_formed s"
  unfolding reachable_def using well_formed_search well_formed_perform_all by blast

section \<open>Buckets and threshold\<close>

lemma and_then_Inr: "and_then r f = Inr y \<Longrightarrow> \<exists>x. r = Inr x \<and> f x = Inr y"
  by (cases r) (simp_all add: and_then_def)

lemma on_result_Inr: "on_result f r = Inr y \<Longrightarrow> \<exists>x. r = Inr x \<and> f x = y"
  by (cases r) (simp_all add: on_result_def)

text \<open>
  C4. After every classification pass on an instance, the match records of
  \<^verbatim>\<open>allItems\<close> are one per key of the collection, in the collection's order (so
  their number is the size of the collection), and every key of the collection has
  exactly one place in the three buckets together: the full matches, the partial
  matches and the excluded.
\<close>

theorem every_item_in_one_bucket:
  assumes "reachable hs s" and "fn_performSearch s = Inr s'"
  shows "s_collection s' = s_collection s \<and>
     length (s_allItems s') = length (s_collection s') \<and>
     map m_key (s_allItems s') = map fst (s_collection s') \<and>
     (\<forall>k \<in> set (map fst (s_collection s')). bucket_count k s' = 1)"
  unfolding bucket_count_def
  using one_bucket_core [OF assms(2)] reachable_well_formed [OF assms(1)]
  by (simp add: well_formed_def)

lemma small_search_reachable:
  assumes "small_search = Inr s"
  shows "reachable hs s"
proof -
  from assms have
    "and_then (search (JArr [JStr ''ab'', JStr ''b'', JStr ''aa''])) (sl_for (JStr ''a'')) = Inr s"
    by (simp only: small_search_def)
  from and_then_Inr [OF this] obtain s0 where
    s0: "search (JArr [JStr ''ab'', JStr ''b'', JStr ''aa'']) = Inr s0 \<and>
         sl_for (JStr ''a'') s0 = Inr s" ..
  then have "perform_all hs [For (JStr ''a'')] s0 = Inr s"
    by (simp add: perform_def)
  with s0 show ?thesis unfolding reachable_def by (intro exI conjI) (rule conjunct1, assumption+)
qed

lemma small_pass_keys:
  "on_result (\<lambda>s. map fst (s_collection s)) (and_then small_search fn_performSearch)
     = Inr [JNum 0, JNum 1, JNum 2]"
  by code_simp

theorem every_item_in_one_bucket_witness:
  "on_result (\<lambda>s. length (s_allItems s)) (and_then small_search fn_performSearch) = Inr 3 \<and>
   on_result (bucket_count (JNum 0)) (and_then small_search fn_performSearch) = Inr 1 \<and>
   on_result (bucket_count (JNum 1)) (and_then small_search fn_performSearch) = Inr 1 \<and>
   on_result (bucket_count (JNum 2)) (and_then small_search fn_performSearch) = Inr 1"
proof -
  from on_result_Inr [OF small_pass_keys]
  obtain s' where rk: "and_then small_search fn_performSearch = Inr s' \<and>
      map fst (s_collection s') = [JNum 0, JNum 1, JNum 2]" ..
  then have r: "and_then small_search fn_performSearch = Inr s'"
    and keys: "map fst (s_collection s') = [JNum 0, JNum 1, JNum 2]"
    by (rule conjunct1, rule conjunct2)
  from and_then_Inr [OF r] obtain s where sp: "small_search = Inr s \<and> fn_performSearch s = Inr s'" ..
  then have s: "small_search = Inr s" and p: "fn_performSearch s = Inr s'"
    by (rule conjunct1, rule conjunct2)
  note t = every_item_in_one_bucket [OF small_search_reachable [OF s, of insertion_sort] p]
  from t have "length (s_allItems s') = length (map fst (s_collection s'))" by simp
  then have "length (s_allItems s') = 3" by (simp only: keys) simp
  moreover from t keys have "bucket_count (JNum 0) s' = 1" "bucket_count (JNum 1) s' = 1"
    "bucket_count (JNum 2) s' = 1" by simp_all
  ultimately show ?thesis by (simp add: r on_result_def)
qed

text \<open>
  C1, as the code has it. After every classification pass on an instance the threshold
  is the base plus the number of filters plus 1 if there is a search term; and when
  there is a filter or a search term, an item of score exactly 0 is in neither bucket,
  one of score above 0 and below the threshold is a partial match, and one of score at
  or above the threshold is a full match. (With no filter and no search term no score
  is computed and every item is a full match of score 0.)
\<close>

theorem classification_by_threshold:
  assumes "reachable hs s" and "fn_performSearch s = Inr s'"
  shows "s_threshold s' = o_baseThreshold s' + length (s_filters s')
                            + (if s_searchTerms s' \<noteq> [] then 1 else 0) \<and>
     (s_searchTerms s' \<noteq> [] \<or> s_filters s' \<noteq> [] \<longrightarrow> spec_classified_by_score s')"
  using classification_core [OF assms(2)] reachable_well_formed [OF assms(1)]
  by (simp add: well_formed_def)

lemma small_pass_terms:
  "on_result s_searchTerms (and_then small_search fn_performSearch) = Inr [''a'']"
  "on_result (\<lambda>s. length (s_filters s)) (and_then small_search fn_performSearch) = Inr 0"
  "on_result o_baseThreshold (and_then small_search fn_performSearch) = Inr 0"
  by code_simp+

theorem classification_by_threshold_witness:
  "on_result s_threshold (and_then small_search fn_performSearch) = Inr 1 \<and>
   on_result spec_classified_by_score (and_then small_search fn_performSearch) = Inr True"
proof -
  from on_result_Inr [OF small_pass_terms(1)]
  obtain s' where rt: "and_then small_search fn_performSearch = Inr s' \<and>
      s_searchTerms s' = [''a'']" ..
  then have r: "and_then small_search fn_performSearch = Inr s'"
    and terms1: "s_searchTerms s' = [''a'']"
    by (rule conjunct1, rule conjunct2)
  from small_pass_terms(2,3) r have terms: "s_searchTerms s' = [''a'']"
    "length (s_filters s') = 0" "o_baseThreshold s' = 0"
    using terms1 by (simp_all add: on_result_def)
  from and_then_Inr [OF r] obtain s where sp: "small_search = Inr s \<and> fn_performSearch s = Inr s'" ..
  then have s: "small_search = Inr s" and p: "fn_performSearch s = Inr s'"
    by (rule conjunct1, rule conjunct2)
  note t = classification_by_threshold [OF small_search_reachable [OF s, of insertion_sort] p]
  from t terms have "s_threshold s' = 1" "spec_classified_by_score s'" by simp_all
  then show ?thesis by (simp add: r on_result_def)
qed

text \<open>
  C1 as the specification states it, for every constraint set, fails for the empty one:
  after the pass on \<^verbatim>\<open>search(['x'])\<close> the threshold is 0 and the only item has score
  0 and is a full match, not excluded.
\<close>

theorem unconstrained_zero_score_is_full_match:
  "on_result (\<lambda>s. map m_relevance (s_matches s))
     (and_then (search (JArr [JStr ''x''])) fn_performSearch) = Inr [0] \<and>
   on_result (\<lambda>s. map m_key (s_matches s))
     (and_then (search (JArr [JStr ''x''])) fn_performSearch) = Inr [JNum 0] \<and>
   on_result s_threshold (and_then (search (JArr [JStr ''x''])) fn_performSearch) = Inr 0 \<and>
   on_result spec_classified_by_score
     (and_then (search (JArr [JStr ''x''])) fn_performSearch) = Inr False"
  by code_simp

section \<open>No constraints\<close>

lemma getItem_emptyMatches:
  "distinct (map fst C) \<Longrightarrow> s_collection s = C' \<Longrightarrow> set C \<subseteq> set C' \<Longrightarrow> distinct (map fst C') \<Longrightarrow>
   map (fn_getItem s) (map i_emptyMatch (map fst C)) = map snd C"
  by (induction C) (auto simp add: fn_getItem_def Map_get_def i_emptyMatch_def)

lemma all_items_formatted:
  assumes "distinct (map fst (s_collection s))"
  shows "map (fn_getItem s) (map i_emptyMatch (map fst (s_collection s))) = map snd (s_collection s)"
  using getItem_emptyMatches [OF assms refl subset_refl assms] .

lemma unconstrained_not_constrained:
  assumes "threshold_current s" and "s_filters s = []" and "s_searchText s = []"
  shows "fn_isConstrained s = (False, fn_updateConstraints s)"
    and "s_searchTerms (fn_updateConstraints s) = []"
  using assms
  by (auto simp add: fn_isConstrained_def fn_updateConstraints_def threshold_current_def Let_def)

lemma unconstrained_performSearch:
  assumes "threshold_current s" and "s_filters s = []" and "s_searchText s = []"
  shows "fn_performSearch s =
     Inr ((fn_updateConstraints s)\<lparr>s_allItems := map i_emptyMatch (map fst (s_collection s)),
            s_matches := map i_emptyMatch (map fst (s_collection s)),
            s_shared := True, s_partial := [], s_searched := True\<rparr>)"
  using unconstrained_not_constrained(1) [OF assms]
  by (simp add: fn_performSearch_def Let_def)

lemma updateConstraints_options [simp]:
  "o_customSort (fn_updateConstraints s) = o_customSort s"
  "o_sort (fn_updateConstraints s) = o_sort s"
  "o_inject_enabled (fn_updateConstraints s) = o_inject_enabled s"
  "o_collectionType (fn_updateConstraints s) = o_collectionType s"
  "s_complete (fn_updateConstraints s) = s_complete s"
  "s_ready (fn_updateConstraints s)"
  by (simp_all add: fn_updateConstraints_def Let_def)

lemma updateConstraints_ready: "s_ready s \<Longrightarrow> fn_updateConstraints s = s"
  by (simp add: fn_updateConstraints_def)

text \<open>
  An instance whose results are computed and which has no constraint and no custom sort:
  every accessor returns the formatted \<open>all\<close>, and without injection leaves the
  instance as it is.
\<close>

lemma settled_performSort:
  assumes "s_ready s" and "s_searchTerms s = []" and "s_filters s = []"
    and "o_customSort s = Sort_value JNull"
  shows "fn_performSort hs s ms = Inr (s, ms)"
  using assms
  by (simp add: fn_performSort_def fn_isConstrained_def Let_def updateConstraints_ready)

lemma settled_accessors:
  assumes "s_complete s" and "s_ready s" and "s_searchTerms s = []" and "s_filters s = []"
    and "o_customSort s = Sort_value JNull"
    and "s_matches s = all" and "s_allItems s = all" and "s_partial s = []"
  shows "get_matches hs s = fn_toOriginalFormat s all"
    and "get_allMatches hs s = fn_toOriginalFormat s all"
    and "get_allItems hs s = fn_toOriginalFormat s all"
    and "\<not> o_inject_enabled s \<longrightarrow>
         (\<exists>r. fn_toOriginalFormat s all = Inr (r, s) \<and>
           (o_collectionType s = ''array'' \<longrightarrow> r = JArr (map (fn_getItem s) all)))"
proof -
  have u: "fn_updateMatches hs s = Inr s" using assms(1) by (simp add: fn_updateMatches_def)
  show "get_matches hs s = fn_toOriginalFormat s all"
    by (simp add: get_matches_def u assms(6))
  show "get_allMatches hs s = fn_toOriginalFormat s all"
    by (simp add: get_allMatches_def u settled_performSort [OF assms(2-5)] assms(6,8))
  have "set_allItems s all = s"
    using assms(6,7) by (simp add: set_allItems_def)
  then show "get_allItems hs s = fn_toOriginalFormat s all"
    by (simp add: get_allItems_def u settled_performSort [OF assms(2-5)] assms(7))
  show "\<not> o_inject_enabled s \<longrightarrow>
         (\<exists>r. fn_toOriginalFormat s all = Inr (r, s) \<and>
           (o_collectionType s = ''array'' \<longrightarrow> r = JArr (map (fn_getItem s) all)))"
    by (simp add: fn_toOriginalFormat_def)
qed

lemma fresh_unconstrained_update:
  assumes "threshold_current s" and "s_filters s = []" and "s_searchText s = []"
    and "\<not> s_searched s" and "\<not> s_complete s" and "o_customSort s = Sort_value JNull"
  shows "\<exists>s1. fn_updateMatches hs s = Inr s1 \<and> s_complete s1 \<and> s_ready s1 \<and>
     s_searchTerms s1 = [] \<and> s_filters s1 = [] \<and> o_customSort s1 = Sort_value JNull \<and>
     o_inject_enabled s1 = o_inject_enabled s \<and> o_collectionType s1 = o_collectionType s \<and>
     s_collection s1 = s_collection s \<and>
     s_matches s1 = map i_emptyMatch (map fst (s_collection s)) \<and>
     s_allItems s1 = map i_emptyMatch (map fst (s_collection s)) \<and> s_partial s1 = [] \<and>
     s_totalMatches s1 = length (s_collection s)"
proof -
  let ?u = "fn_updateConstraints s"
  let ?all = "map i_emptyMatch (map fst (s_collection s))"
  let ?a = "?u\<lparr>s_allItems := ?all, s_matches := ?all, s_shared := True, s_partial := [],
                s_searched := True\<rparr>"
  have ps: "fn_performSearch s = Inr ?a"
    using assms(1-3) by (rule unconstrained_performSearch)
  have terms: "s_searchTerms ?u = []"
    using assms(1-3) by (rule unconstrained_not_constrained(2))
  have sort: "fn_performSort hs ?a ?all = Inr (?a, ?all)"
    by (rule settled_performSort) (simp_all add: terms assms(2,6))
  have set: "set_matches ?a ?all = ?a" by (simp add: set_matches_def)
  have "fn_updateMatches hs s =
      Inr (?a\<lparr>s_totalMatches := length ?all, s_index := 0,
               s_lastIndex := int (length ?all) - 1, s_complete := True\<rparr>)"
    using assms(4,5) by (simp add: fn_updateMatches_def ps sort set Let_def del: map_map)
  then show ?thesis by (simp add: terms assms(2,6))
qed


lemma search_fresh:
  assumes "search collection = Inr s"
  shows "s_filters s = [] \<and> s_searchText s = [] \<and> \<not> s_searched s \<and> \<not> s_complete s \<and>
         o_customSort s = Sort_value JNull \<and> \<not> o_inject_enabled s"
  using assms
  by (auto simp add: search_def fn_collection_def new_instance_def
      split: sum.splits jsval.splits if_splits prod.splits)

lemma search_reachable: "search collection = Inr s \<Longrightarrow> reachable hs s"
  unfolding reachable_def by (intro exI [of _ collection] exI [of _ "[]"] exI [of _ s]) simp

lemma two_texts_collection:
  "on_result (\<lambda>s. (o_collectionType s, map snd (s_collection s)))
     (search (JArr [JStr ''x'', JStr ''y''])) = Inr (''array'', [JStr ''x'', JStr ''y''])"
  by code_simp

section \<open>Reading the matches twice\<close>

lemma map_upd_absent:
  "k \<notin> fst ` set ps \<Longrightarrow> map (\<lambda>(k', v'). if k' = k then (k', v) else (k', v')) ps = ps"
  by (induction ps) auto

lemma insert_index_overwrite:
  "k \<notin> fst ` set ps \<Longrightarrow>
   map (\<lambda>(k', v'). if k' = k then (k', v2) else (k', v')) (insert_index ps k v1) = insert_index ps k v2"
  by (induction ps) (auto simp add: map_upd_absent)

lemma insert_index_has_key: "k \<in> fst ` set (insert_index ps k v)"
proof (induction ps)
  case Nil
  then show ?case by simp
next
  case (Cons e ps)
  obtain k' v' where e: "e = (k', v')" by (cases e)
  show ?case
    using Cons by (cases "is_index_name k' \<and> digits_value k' 0 < digits_value k 0") (simp_all add: e)
qed

lemma obj_set_overwrite: "obj_set (obj_set ps k v1) k v2 = obj_set ps k v2"
proof (cases "k \<in> fst ` set ps")
  case True
  then have "k \<in> fst ` set (map (\<lambda>(k', v'). if k' = k then (k', v1) else (k', v')) ps)"
    by (force simp add: image_iff split: prod.splits)
  then show ?thesis using True
    by (simp add: obj_set_def comp_def case_prod_unfold)
next
  case False
  show ?thesis
  proof (cases "k = ''__proto__''")
    case True
    then show ?thesis using False by (simp add: obj_set_def)
  next
    case np: False
    show ?thesis
    proof (cases "is_index_name k")
      case True
      then show ?thesis using False np
        by (simp add: obj_set_def insert_index_has_key insert_index_overwrite)
    next
      case F: False
      then show ?thesis using False np by (simp add: obj_set_def map_upd_absent)
    qed
  qed
qed

lemma inject_item_overwrite:
  "inject_item p m2 (inject_item p m1 item) = inject_item p m2 item"
  by (cases item) (simp_all add: inject_item_def obj_set_overwrite)

lemma inject_item_kind [simp]:
  "isArray (inject_item p m item) = isArray item"
  "(inject_item p m item = JNull) = (item = JNull)"
  by (cases item; simp add: inject_item_def isArray_def)+

lemma map_of_Map_set: "map_of (Map_set C k v) = (map_of C)(k \<mapsto> v)"
  by (induction C) (auto simp add: fun_eq_iff)

lemma Map_set_present: "k \<in> set (map fst C) \<Longrightarrow> map fst (Map_set C k v) = map fst C"
  by (induction C) (auto simp del: set_map)

lemma map_of_keys: "map_of C k = Some a \<Longrightarrow> k \<in> set (map fst C)"
  by (metis map_of_SomeD set_zip_leftD zip_map_fst_snd)

lemma map_of_same_keys:
  "map fst C = map fst C0 \<Longrightarrow> map_of C k = Some a \<Longrightarrow> \<exists>b. map_of C0 k = Some b"
  by (metis map_of_keys map_of_eq_None_iff not_None_eq set_map)

lemma assoc_list_eq:
  "distinct (map fst xs) \<Longrightarrow> map fst xs = map fst ys \<Longrightarrow> map_of xs = map_of ys \<Longrightarrow> xs = ys"
proof (induction xs arbitrary: ys)
  case Nil
  then show ?case by simp
next
  case (Cons x xs)
  then obtain y ys' where ys: "ys = y # ys'" by (cases ys) auto
  with Cons.prems have k: "fst x = fst y" and ks: "map fst xs = map fst ys'" by simp_all
  have eq: "map_of (x # xs) j = map_of ys j" for j
    using fun_cong [OF Cons.prems(3)] .
  have v: "snd x = snd y" using eq [of "fst x"] ys k by (cases x; cases y) simp
  have "map_of xs = map_of ys'"
  proof
    fix j
    show "map_of xs j = map_of ys' j"
    proof (cases "j = fst x")
      case True
      have n: "fst x \<notin> fst ` set xs" using Cons.prems(1) by simp
      have "fst ` set xs = fst ` set ys'" using arg_cong [OF ks, of set] by simp
      with n have "map_of xs (fst x) = None" "map_of ys' (fst x) = None"
        by (simp_all add: map_of_eq_None_iff)
      then show ?thesis using True by simp
    next
      case False
      show ?thesis using eq [of j] False ys k by (cases x; cases y) simp
    qed
  qed
  with Cons.IH [of ys'] Cons.prems(1) ks have "xs = ys'" by simp
  then show ?case using ys k v by (cases x; cases y) simp
qed

lemma last_for_Cons:
  "last_for k (m # ms) =
     (if k \<in> m_key ` set ms then last_for k ms else if m_key m = k then m else last_for k ms)"
proof -
  have "k \<in> m_key ` set ms \<Longrightarrow> filter (\<lambda>m. m_key m = k) ms \<noteq> []"
    by (auto simp add: filter_empty_conv)
  moreover have "k \<notin> m_key ` set ms \<Longrightarrow> filter (\<lambda>m. m_key m = k) ms = []"
    by (auto simp add: filter_empty_conv)
  ultimately show ?thesis by (auto simp add: last_for_def)
qed

lemma similar_refl: "similar p C C"
  by (simp add: similar_def)

lemma similar_Map_set:
  assumes "similar p C0 C" and "map_of C0 k = Some a"
  shows "similar p C0 (Map_set C k (inject_item p m a))"
proof -
  from assms have "k \<in> set (map fst C)"
    by (metis map_of_keys similar_def)
  then have "map fst (Map_set C k (inject_item p m a)) = map fst C0"
    using assms(1) by (simp add: Map_set_present similar_def del: set_map)
  then show ?thesis
    using assms by (auto simp add: similar_def map_of_Map_set)
qed

lemma final_map_Cons_absent:
  assumes "map_of C0 (m_key m) = None" and "map_of C (m_key m) = None"
  shows "final_map p C0 C (m # ms) k = final_map p C0 C ms k"
  using assms by (auto simp add: final_map_def last_for_Cons)

lemma final_map_Cons_present:
  assumes "map_of C0 (m_key m) = Some a"
  shows "final_map p C0 C (m # ms) k =
         final_map p C0 (Map_set C (m_key m) (inject_item p m a)) ms k"
  using assms by (auto simp add: final_map_def last_for_Cons map_of_Map_set)

lemma similar_lookup:
  "similar p C0 C \<Longrightarrow> map_of C0 k = Some a \<Longrightarrow>
   map_of C k = Some a \<or> (\<exists>m. map_of C k = Some (inject_item p m a))"
  by (simp add: similar_def)

lemma similar_keys: "similar p C0 C \<Longrightarrow> map fst C = map fst C0"
  by (simp add: similar_def)

lemma similar_present:
  assumes "similar p C0 C" and "map_of C k = Some item"
  shows "\<exists>a. map_of C0 k = Some a \<and> (item = a \<or> (\<exists>m. item = inject_item p m a))"
proof -
  from map_of_same_keys [OF similar_keys [OF assms(1)] assms(2)]
  obtain a where a: "map_of C0 k = Some a" ..
  from similar_lookup [OF assms(1) a] assms(2) have "item = a \<or> (\<exists>m. item = inject_item p m a)"
    by auto
  with a show ?thesis by blast
qed

lemma injected_same:
  assumes "item = a \<or> (\<exists>m'. item = inject_item p m' a)"
  shows "inject_item p m item = inject_item p m a"
    and "isArray item = isArray a" and "(item = JNull) = (a = JNull)"
proof -
  from assms obtain m' where "item = a \<or> item = inject_item p m' a" by auto
  then show "inject_item p m item = inject_item p m a"
    and "isArray item = isArray a" and "(item = JNull) = (a = JNull)"
    by (auto simp add: inject_item_overwrite)
qed

lemma not_array_case:
  "\<not> isArray item \<Longrightarrow> (case item of JArr ys \<Rightarrow> f ys | _ \<Rightarrow> x) = x"
  by (cases item) (simp_all add: isArray_def)

lemma inject_all_char:
  assumes "similar p C0 C" and "\<forall>e \<in> set C0. \<not> isArray (snd e)"
    and "inject_all p C ms = Inr (xs, C')"
  shows "xs = map (out_item p C0) ms \<and> similar p C0 C' \<and>
         (\<forall>k. map_of C' k = final_map p C0 C ms k) \<and>
         (\<forall>m \<in> set ms. map_of C0 (m_key m) \<noteq> Some JNull)"
  using assms
proof (induction ms arbitrary: C xs)
  case Nil
  then show ?case by (simp add: final_map_def)
next
  case (Cons m ms)
  let ?k = "m_key m"
  show ?case
  proof (cases "map_of C ?k")
    case None
    have c0: "map_of C0 ?k = None"
    proof (rule ccontr)
      assume "map_of C0 ?k \<noteq> None"
      then obtain a where "map_of C0 ?k = Some a" by auto
      from similar_lookup [OF Cons.prems(1) this] None show False by auto
    qed
    from Cons.prems(3) None obtain xs' where
      run: "inject_all p C ms = Inr (xs', C')" and xs: "xs = JUndefined # xs'"
      by (auto simp add: Map_get_def split: sum.splits)
    note ih = Cons.IH [OF Cons.prems(1,2) run]
    have "out_item p C0 m = JUndefined" by (simp add: out_item_def c0)
    then show ?thesis
      using ih xs c0 None by (simp add: final_map_Cons_absent)
  next
    case (Some item)
    from similar_present [OF Cons.prems(1) Some]
    obtain a where a: "map_of C0 ?k = Some a"
      and item: "item = a \<or> (\<exists>m'. item = inject_item p m' a)" by blast
    have "(?k, a) \<in> set C0" using a by (rule map_of_SomeD)
    then have na: "\<not> isArray a" using Cons.prems(2) by auto
    then have ni: "\<not> isArray item" using injected_same(2) [OF item] by simp
    have nn: "item \<noteq> JNull" using Cons.prems(3) Some by (auto simp add: Map_get_def)
    then have an: "a \<noteq> JNull" using injected_same(3) [OF item] by simp
    have item': "(case item of JArr ys \<Rightarrow> JArr (ys @ [stats m]) | _ \<Rightarrow> inject_item p m item)
                 = inject_item p m a"
      using ni injected_same(1) [OF item, of m] by (cases item) (simp_all add: isArray_def)
    from Cons.prems(3) Some nn item' obtain xs' where
      run: "inject_all p (Map_set C ?k (inject_item p m a)) ms = Inr (xs', C')"
      and xs: "xs = inject_item p m a # xs'"
      by (auto simp add: Map_get_def Let_def split: sum.splits)
    have sim: "similar p C0 (Map_set C ?k (inject_item p m a))"
      using Cons.prems(1) a by (rule similar_Map_set)
    note ih = Cons.IH [OF sim Cons.prems(2) run]
    have "out_item p C0 m = inject_item p m a" by (simp add: out_item_def a)
    then show ?thesis
      using ih xs a an by (simp add: final_map_Cons_present)
  qed
qed

lemma inject_all_total:
  assumes "similar p C0 C" and "\<forall>e \<in> set C0. \<not> isArray (snd e)"
    and "\<forall>m \<in> set ms. map_of C0 (m_key m) \<noteq> Some JNull"
  shows "\<exists>xs C'. inject_all p C ms = Inr (xs, C')"
  using assms
proof (induction ms arbitrary: C)
  case Nil
  then show ?case by simp
next
  case (Cons m ms)
  let ?k = "m_key m"
  show ?case
  proof (cases "map_of C ?k")
    case None
    from Cons.IH [OF Cons.prems(1,2)] Cons.prems(3) obtain xs C' where
      "inject_all p C ms = Inr (xs, C')" by auto
    then show ?thesis using None by (simp add: Map_get_def)
  next
    case (Some item)
    from similar_present [OF Cons.prems(1) Some]
    obtain a where a: "map_of C0 ?k = Some a"
      and item: "item = a \<or> (\<exists>m'. item = inject_item p m' a)" by blast
    have "(?k, a) \<in> set C0" using a by (rule map_of_SomeD)
    then have na: "\<not> isArray a" using Cons.prems(2) by auto
    then have ni: "\<not> isArray item" using injected_same(2) [OF item] by simp
    have an: "a \<noteq> JNull" using Cons.prems(3) a by auto
    then have nn: "item \<noteq> JNull" using injected_same(3) [OF item] by simp
    have item': "(case item of JArr ys \<Rightarrow> JArr (ys @ [stats m]) | _ \<Rightarrow> inject_item p m item)
                 = inject_item p m a"
      using ni injected_same(1) [OF item, of m] by (cases item) (simp_all add: isArray_def)
    have sim: "similar p C0 (Map_set C ?k (inject_item p m a))"
      using Cons.prems(1) a by (rule similar_Map_set)
    from Cons.IH [OF sim Cons.prems(2)] Cons.prems(3) obtain xs C' where
      "inject_all p (Map_set C ?k (inject_item p m a)) ms = Inr (xs, C')" by auto
    then show ?thesis using Some nn item' by (simp add: Map_get_def Let_def)
  qed
qed

lemma final_map_fixed:
  assumes "\<forall>k. map_of C' k = final_map p C0 C ms k"
  shows "final_map p C0 C' ms k = map_of C' k"
  using assms by (simp add: final_map_def)

lemma inject_all_again:
  assumes "distinct (map fst C)" and "\<forall>e \<in> set C. \<not> isArray (snd e)"
    and "inject_all p C ms = Inr (xs, C')"
  shows "inject_all p C' ms = Inr (xs, C')"
proof -
  note first = inject_all_char [OF similar_refl assms(2,3)]
  then have sim: "similar p C C'" and nn: "\<forall>m \<in> set ms. map_of C (m_key m) \<noteq> Some JNull"
    and fm: "\<forall>k. map_of C' k = final_map p C C ms k" and xs: "xs = map (out_item p C) ms"
    by simp_all
  obtain xs2 C2 where run: "inject_all p C' ms = Inr (xs2, C2)"
    using inject_all_total [OF sim assms(2) nn] by auto
  note second = inject_all_char [OF sim assms(2) run]
  then have xs2: "xs2 = xs" and sim2: "similar p C C2"
    and fm2: "\<forall>k. map_of C2 k = final_map p C C' ms k"
    using xs by simp_all
  have maps: "map_of C2 = map_of C'"
    using fm2 final_map_fixed [OF fm] by (simp add: fun_eq_iff)
  have keys: "map fst C2 = map fst C'" using sim sim2 by (simp add: similar_def)
  have d: "distinct (map fst C2)" using sim2 assms(1) by (simp add: similar_def)
  from d keys maps have "C2 = C'" by (rule assoc_list_eq)
  then show ?thesis using run xs2 by simp
qed

lemma Map_set_same: "map_of C k = Some v \<Longrightarrow> Map_set C k v = C"
  by (induction C) (auto split: if_splits)

lemma getItemInject_pure:
  "fn_getItemInject s m =
     (case Map_get (s_collection s) (m_key m) of
        None \<Rightarrow> Inr (JUndefined, s)
      | Some item \<Rightarrow>
          if item = JNull then Inl TypeError
          else
            (let item' = (case item of JArr ys \<Rightarrow> JArr (ys @ [stats m])
                                       | _ \<Rightarrow> inject_item (o_inject_property s) m item)
             in Inr (item', s\<lparr>s_collection := Map_set (s_collection s) (m_key m) item'\<rparr>)))"
proof (cases "Map_get (s_collection s) (m_key m)")
  case None
  then show ?thesis by (simp add: fn_getItemInject_def)
next
  case (Some item)
  then have same: "Map_set (s_collection s) (m_key m) item = s_collection s"
    by (simp add: Map_get_def Map_set_same)
  show ?thesis
    using Some same by (cases item) (simp_all add: fn_getItemInject_def inject_item_def Let_def)
qed

lemma map_getItemInject_pure:
  "map_getItemInject s ms =
     (case inject_all (o_inject_property s) (s_collection s) ms of
        Inl e \<Rightarrow> Inl e
      | Inr (xs, C') \<Rightarrow> Inr (xs, s\<lparr>s_collection := C'\<rparr>))"
proof (induction ms arbitrary: s)
  case Nil
  then show ?case by simp
next
  case (Cons m ms)
  show ?case
  proof (cases "Map_get (s_collection s) (m_key m)")
    case None
    then show ?thesis
      by (simp add: getItemInject_pure Cons.IH split: sum.splits prod.splits)
  next
    case (Some item)
    then show ?thesis
      by (simp add: getItemInject_pure Cons.IH Let_def split: sum.splits prod.splits)
  qed
qed

lemma reduce_inject_pure:
  "reduce_inject s items ms =
     (case inject_all (o_inject_property s) (s_collection s) ms of
        Inl e \<Rightarrow> Inl e
      | Inr (xs, C') \<Rightarrow> Inr (reduce_items items ms xs, s\<lparr>s_collection := C'\<rparr>))"
proof (induction ms arbitrary: s items)
  case Nil
  then show ?case by (simp add: reduce_items_def)
next
  case (Cons m ms)
  show ?case
  proof (cases "Map_get (s_collection s) (m_key m)")
    case None
    then show ?thesis
      by (simp add: getItemInject_pure Cons.IH reduce_items_def split: sum.splits prod.splits)
  next
    case (Some item)
    then show ?thesis
      by (simp add: getItemInject_pure Cons.IH Let_def reduce_items_def split: sum.splits prod.splits)
  qed
qed

lemma toOriginalFormat_again:
  assumes "fn_toOriginalFormat s ms = Inr (r, s')"
    and "distinct (map fst (s_collection s))"
    and "\<not> o_inject_enabled s \<or> (\<forall>e \<in> set (s_collection s). \<not> isArray (snd e))"
  shows "fn_toOriginalFormat s' ms = Inr (r, s')"
proof (cases "o_inject_enabled s")
  case False
  then show ?thesis using assms(1) by (auto simp add: fn_toOriginalFormat_def split: if_splits)
next
  case True
  with assms(3) have na: "\<forall>e \<in> set (s_collection s). \<not> isArray (snd e)" by simp
  let ?p = "o_inject_property s"
  from assms(1) True obtain xs C' where
    run: "inject_all ?p (s_collection s) ms = Inr (xs, C')" and s': "s' = s\<lparr>s_collection := C'\<rparr>"
    and r: "r = (if o_collectionType s = ''array'' then JArr xs else JObj (reduce_items [] ms xs))"
    by (auto simp add: fn_toOriginalFormat_def map_getItemInject_pure reduce_inject_pure
        split: if_splits sum.splits prod.splits)
  have again: "inject_all ?p C' ms = Inr (xs, C')"
    using assms(2) na run by (rule inject_all_again)
  show ?thesis
    using True again
    by (simp add: fn_toOriginalFormat_def map_getItemInject_pure reduce_inject_pure s' r)
qed

lemma performSort_fields:
  assumes "fn_performSort hs s ms = Inr (s', ms')"
  shows "s_collection s' = s_collection s" "o_inject_enabled s' = o_inject_enabled s"
    "s_complete s' = s_complete s"
  using performSort_state [OF assms] by auto

lemma performSearch_fields:
  assumes "fn_performSearch s = Inr s'"
  shows "s_collection s' = s_collection s" "o_inject_enabled s' = o_inject_enabled s"
  using performSearch_result [OF assms] by auto

lemma updateMatches_fields:
  assumes "fn_updateMatches hs s = Inr s'"
  shows "s_collection s' = s_collection s" "o_inject_enabled s' = o_inject_enabled s"
    "s_complete s'"
proof -
  show "s_complete s'" using assms
    by (auto simp add: fn_updateMatches_def Let_def split: if_splits sum.splits prod.splits)
  have "s_collection s' = s_collection s \<and> o_inject_enabled s' = o_inject_enabled s"
  proof (cases "s_complete s")
    case True
    then show ?thesis using assms by (simp add: fn_updateMatches_def)
  next
    case False
    from assms False obtain s1 where
      s1: "(if \<not> s_searched s then fn_performSearch s else Inr s) = Inr s1"
      by (auto simp add: fn_updateMatches_def split: sum.splits)
    then have f1: "s_collection s1 = s_collection s" "o_inject_enabled s1 = o_inject_enabled s"
      using performSearch_fields by (auto split: if_splits)
    from assms False s1 obtain s2 ms1 where
      p: "fn_performSort hs s1 (s_matches s1) = Inr (s2, ms1)"
      by (auto simp add: fn_updateMatches_def split: sum.splits)
    then have f2: "s_collection s2 = s_collection s1" "o_inject_enabled s2 = o_inject_enabled s1"
      using performSort_fields(1,2) by simp_all
    from assms False s1 p have
      "s' = (set_matches s2 ms1)\<lparr>s_totalMatches := length (s_matches (set_matches s2 ms1)),
          s_index := 0, s_lastIndex := int (length (s_matches (set_matches s2 ms1))) - 1,
          s_complete := True\<rparr>"
      by (simp add: fn_updateMatches_def Let_def)
    then show ?thesis using f1 f2 by (simp add: set_matches_def)
  qed
  then show "s_collection s' = s_collection s" "o_inject_enabled s' = o_inject_enabled s"
    by simp_all
qed

lemma toOriginalFormat_frame:
  assumes "fn_toOriginalFormat s ms = Inr (r, s')"
  shows "s_complete s' = s_complete s" "s_matches s' = s_matches s"
  using assms
  by (auto simp add: fn_toOriginalFormat_def map_getItemInject_pure reduce_inject_pure
      split: if_splits sum.splits prod.splits)

text \<open>
  C8, as the code has it. On every instance on which statistics are not injected, or
  none of whose stored items is an array, a read of \<^verbatim>\<open>matches\<close> that returns leaves
  an instance on which the next read returns the same result and changes nothing: the
  stored items are the same before and after the second read. (The first read of an
  instance with injection has written the statistics into the stored objects.)
\<close>

theorem repeated_read_identical:
  assumes "reachable hs s" and "get_matches hs s = Inr (r, s1)"
    and "\<not> o_inject_enabled s \<or> (\<forall>e \<in> set (s_collection s). \<not> isArray (snd e))"
  shows "get_matches hs s1 = Inr (r, s1)"
proof -
  from assms(2) obtain su where u: "fn_updateMatches hs s = Inr su"
    and f: "fn_toOriginalFormat su (s_matches su) = Inr (r, s1)"
    by (auto simp add: get_matches_def split: sum.splits)
  note uf = updateMatches_fields [OF u]
  have "well_formed su"
    using reachable_well_formed [OF assms(1)] u by (rule well_formed_updateMatches)
  then have d: "distinct (map fst (s_collection su))" by (simp add: well_formed_def)
  have c: "\<not> o_inject_enabled su \<or> (\<forall>e \<in> set (s_collection su). \<not> isArray (snd e))"
    using assms(3) by (simp only: uf)
  note ff = toOriginalFormat_frame [OF f]
  have "s_complete s1" using ff(1) uf(3) by simp
  then have u1: "fn_updateMatches hs s1 = Inr s1" by (simp add: fn_updateMatches_def)
  have "fn_toOriginalFormat s1 (s_matches su) = Inr (r, s1)"
    using f d c by (rule toOriginalFormat_again)
  then show ?thesis by (simp add: get_matches_def u1 ff(2))
qed

lemma result_of_Inr: "result_of x = Inr r \<Longrightarrow> \<exists>s. x = Inr (r, s)"
  by (cases x) (auto simp add: result_of_def)

text \<open>
  C8 as the specification states it, for every configuration, fails with injection
  enabled and an item that is an array: each read pushes the statistics onto the stored
  array once more, so the second read returns an item with two statistics objects where
  the first returned one, and the stored item has changed between the reads.
\<close>

theorem injected_array_grows_on_each_read:
  "result_of (and_then array_item_search (get_matches insertion_sort)) =
     Inr (JArr [JArr [JStr ''a'',
            JObj [(''relevance'', JNum 1), (''missing'', JStr [])]]]) \<and>
   result_of (and_then (state_of (and_then array_item_search (get_matches insertion_sort)))
                (get_matches insertion_sort)) =
     Inr (JArr [JArr [JStr ''a'',
            JObj [(''relevance'', JNum 1), (''missing'', JStr [])],
            JObj [(''relevance'', JNum 1), (''missing'', JStr [])]]]) \<and>
   on_result (\<lambda>s. map snd (s_collection s))
     (state_of (and_then array_item_search (get_matches insertion_sort))) =
     Inr [JArr [JStr ''a'', JObj [(''relevance'', JNum 1), (''missing'', JStr [])]]] \<and>
   on_result (\<lambda>s. map snd (s_collection s))
     (state_of (and_then (state_of (and_then array_item_search (get_matches insertion_sort)))
                (get_matches insertion_sort))) =
     Inr [JArr [JStr ''a'', JObj [(''relevance'', JNum 1), (''missing'', JStr [])],
                JObj [(''relevance'', JNum 1), (''missing'', JStr [])]]]"
  by code_simp

lemma object_item_first_read:
  "result_of (and_then object_item_search (get_matches insertion_sort)) =
     Inr (JArr [JObj [(''t'', JStr ''a''),
            (''searchResults'', JObj [(''relevance'', JNum 1), (''missing'', JStr [])])]])"
  by code_simp

lemma object_item_instance:
  "on_result (\<lambda>s. map snd (s_collection s)) object_item_search =
     Inr [JObj [(''t'', JStr ''a'')]]"
  by code_simp

theorem repeated_read_identical_witness:
  "result_of (and_then object_item_search (get_matches insertion_sort)) =
     Inr (JArr [JObj [(''t'', JStr ''a''),
            (''searchResults'', JObj [(''relevance'', JNum 1), (''missing'', JStr [])])]]) \<and>
   result_of (and_then (state_of (and_then object_item_search (get_matches insertion_sort)))
                (get_matches insertion_sort)) =
     Inr (JArr [JObj [(''t'', JStr ''a''),
            (''searchResults'', JObj [(''relevance'', JNum 1), (''missing'', JStr [])])]])"
proof -
  let ?V = "JArr [JObj [(''t'', JStr ''a''),
            (''searchResults'', JObj [(''relevance'', JNum 1), (''missing'', JStr [])])]]"
  from on_result_Inr [OF object_item_instance]
  obtain s where sc: "object_item_search = Inr s \<and>
      map snd (s_collection s) = [JObj [(''t'', JStr ''a'')]]" ..
  then have s: "object_item_search = Inr s"
    and c: "map snd (s_collection s) = [JObj [(''t'', JStr ''a'')]]"
    by (rule conjunct1, rule conjunct2)
  have "snd e \<in> set (map snd (s_collection s))" if "e \<in> set (s_collection s)" for e
    using that by simp
  then have na: "\<forall>e \<in> set (s_collection s). \<not> isArray (snd e)"
    by (simp only: c) (simp add: isArray_def)
  from s have "and_then (search (JArr [JObj [(''t'', JStr ''a'')]]))
       (perform_all insertion_sort [For (JStr ''a''), WithStats JUndefined]) = Inr s"
    by (simp only: object_item_search_def)
  from and_then_Inr [OF this] obtain s0 where
    "search (JArr [JObj [(''t'', JStr ''a'')]]) = Inr s0 \<and>
     perform_all insertion_sort [For (JStr ''a''), WithStats JUndefined] s0 = Inr s" ..
  then have reach: "reachable insertion_sort s"
    unfolding reachable_def by (intro exI)
  from object_item_first_read have "result_of (get_matches insertion_sort s) = Inr ?V"
    by (simp only: s and_then_def sum.case)
  from result_of_Inr [OF this] obtain s1 where
    first: "get_matches insertion_sort s = Inr (?V, s1)" ..
  have second: "get_matches insertion_sort s1 = Inr (?V, s1)"
    using reach first by (rule repeated_read_identical) (simp add: na)
  have again: "result_of (and_then (state_of (and_then object_item_search (get_matches insertion_sort)))
                (get_matches insertion_sort)) = Inr ?V"
    by (simp only: s and_then_def sum.case first state_of_def prod.case second result_of_def)
  from object_item_first_read again show ?thesis by (rule conjI)
qed

section \<open>The cache of an instance with no constraint\<close>

lemma cache_current_search: "search collection = Inr s \<Longrightarrow> cache_current s"
  using search_fresh [of collection s] by (simp add: cache_current_def)

lemma cache_current_and: "sl_and c s = Inr s' \<Longrightarrow> cache_current s'"
proof (cases c)
  case (JStr t)
  assume "sl_and c s = Inr s'"
  then show ?thesis using JStr by (auto simp add: sl_and_def Let_def cache_current_def)
next
  case (JArr xs)
  assume "sl_and c s = Inr s'"
  then show ?thesis using JArr
    by (auto simp add: sl_and_def Let_def typeof_def isArray_def cache_current_def split: sum.splits)
next
  case (JObj ps)
  assume "sl_and c s = Inr s'"
  then show ?thesis using JObj
    by (auto simp add: sl_and_def Let_def typeof_def isArray_def cache_current_def split: sum.splits)
next
  case JNull
  assume "sl_and c s = Inr s'"
  then show ?thesis using JNull
    by (simp add: sl_and_def Let_def typeof_def isArray_def read_def get_prop_def)
next
  case JUndefined
  assume "sl_and c s = Inr s'"
  then show ?thesis using JUndefined
    by (auto simp add: sl_and_def Let_def typeof_def cache_current_def)
next
  case (JBool b)
  assume "sl_and c s = Inr s'"
  then show ?thesis using JBool
    by (auto simp add: sl_and_def Let_def typeof_def cache_current_def)
next
  case (JNum n)
  assume "sl_and c s = Inr s'"
  then show ?thesis using JNum
    by (auto simp add: sl_and_def Let_def typeof_def cache_current_def)
qed

lemma cache_current_for: "sl_for c s = Inr s' \<Longrightarrow> cache_current s'"
  unfolding sl_for_def by (rule cache_current_and)

lemma cache_current_or: "sl_or c s = Inr s' \<Longrightarrow> cache_current s'"
  by (cases c) (auto simp add: sl_or_def Let_def cache_current_def split: sum.splits)

lemma cache_current_in: "sl_in c s = Inr s' \<Longrightarrow> cache_current s'"
  unfolding sl_in_def by (rule cache_current_or)

lemma cache_current_settings:
  assumes "cache_current s"
  shows "cache_current (sl_sorted s)" "cache_current (sl_unsorted s)"
    "cache_current (sl_sortUsing fn s)" "cache_current (sl_compareCase s)"
    "cache_current (sl_ignoreCase s)" "cache_current (sl_withStats x s)"
    "cache_current (sl_withoutStats s)"
  using assms
  by (simp_all add: cache_current_def all_matched_def sl_sorted_def sl_unsorted_def
      sl_sortUsing_def sl_compareCase_def sl_ignoreCase_def sl_withStats_def
      sl_withoutStats_def Let_def)

lemma updateConstraints_buckets:
  "s_matches (fn_updateConstraints s) = s_matches s"
  "s_allItems (fn_updateConstraints s) = s_allItems s"
  "s_partial (fn_updateConstraints s) = s_partial s"
  "s_searched (fn_updateConstraints s) = s_searched s"
  "s_shared (fn_updateConstraints s) = s_shared s"
  "s_searchText (fn_updateConstraints s) = s_searchText s"
  "s_complete (fn_updateConstraints s) = s_complete s"
  "s_totalMatches (fn_updateConstraints s) = s_totalMatches s"
  by (simp_all add: fn_updateConstraints_def Let_def)

lemma all_matched_updateConstraints: "all_matched s \<Longrightarrow> all_matched (fn_updateConstraints s)"
  by (simp add: all_matched_def updateConstraints_ready)

lemma cache_current_updateConstraints:
  "cache_current s \<Longrightarrow> cache_current (fn_updateConstraints s)"
  by (cases "s_ready s")
    (auto simp add: updateConstraints_ready cache_current_def all_matched_def
      updateConstraints_buckets)

lemma cache_current_performSearch:
  assumes "threshold_current s" and "fn_performSearch s = Inr s'" and "\<not> s_complete s"
  shows "cache_current s'"
proof (cases "fst (fn_isConstrained s)")
  case True
  with performSearch_result [OF assms(2)] obtain ms where
    s': "s' = (fn_updateConstraints s)\<lparr>s_allItems := ms,
                    s_matches := full_of (s_threshold (fn_updateConstraints s)) ms,
                    s_partial := partial_of (s_threshold (fn_updateConstraints s)) ms,
                    s_shared := False, s_searched := True\<rparr>"
    by auto
  have "\<not> (s_filters s = [] \<and> s_searchText s = [])"
    using unconstrained_not_constrained(1) [OF assms(1)] True by auto
  then show ?thesis
    using assms(3) unfolding s'
    by (auto simp add: cache_current_def updateConstraints_buckets)
next
  case False
  with performSearch_result [OF assms(2)] have
    s': "s' = (fn_updateConstraints s)\<lparr>s_allItems := map i_emptyMatch (map fst (s_collection s)),
                 s_matches := map i_emptyMatch (map fst (s_collection s)),
                 s_shared := True, s_partial := [], s_searched := True\<rparr>"
    by auto
  have "s_ready (fn_updateConstraints s)" by (simp add: fn_updateConstraints_def Let_def)
  then show ?thesis
    using assms(3) unfolding s'
    by (auto simp add: cache_current_def all_matched_def updateConstraints_buckets)
qed

lemma cache_current_performSort:
  "cache_current s \<Longrightarrow> fn_performSort hs s ms = Inr (s', ms') \<Longrightarrow> cache_current s'"
  using performSort_state [of hs s ms s' ms'] cache_current_updateConstraints [of s] by auto


lemma Map_set_present_keys:
  "map_of C k = Some v \<Longrightarrow> map fst (Map_set C k v') = map fst C"
  by (induction C) (auto split: if_splits)

lemma inject_all_keys:
  "inject_all p C ms = Inr (xs, C') \<Longrightarrow> map fst C' = map fst C"
proof (induction ms arbitrary: C xs)
  case Nil
  then show ?case by simp
next
  case (Cons m ms)
  show ?case
  proof (cases "Map_get C (m_key m)")
    case None
    with Cons.prems obtain ys where "inject_all p C ms = Inr (ys, C')"
      by (auto split: sum.splits prod.splits)
    then show ?thesis by (rule Cons.IH)
  next
    case (Some item)
    let ?item = "case item of JArr ys \<Rightarrow> JArr (ys @ [stats m]) | _ \<Rightarrow> inject_item p m item"
    from Some Cons.prems obtain ys where
      "inject_all p (Map_set C (m_key m) ?item) ms = Inr (ys, C')"
      by (auto simp add: Let_def split: sum.splits prod.splits if_splits)
    then have "map fst C' = map fst (Map_set C (m_key m) ?item)" by (rule Cons.IH)
    also have "\<dots> = map fst C"
      using Some by (simp add: Map_get_def Map_set_present_keys)
    finally show ?thesis .
  qed
qed

lemma toOriginalFormat_collection:
  assumes "fn_toOriginalFormat s ms = Inr (r, s')"
  shows "\<exists>C'. s' = s\<lparr>s_collection := C'\<rparr> \<and> map fst C' = map fst (s_collection s)"
proof (cases "o_inject_enabled s")
  case False
  then have "s' = s" using assms by (auto simp add: fn_toOriginalFormat_def split: if_splits)
  then have "s' = s\<lparr>s_collection := s_collection s\<rparr>" by simp
  then show ?thesis by blast
next
  case True
  with assms obtain xs C' where
    run: "inject_all (o_inject_property s) (s_collection s) ms = Inr (xs, C')"
    and s': "s' = s\<lparr>s_collection := C'\<rparr>"
    by (auto simp add: fn_toOriginalFormat_def map_getItemInject_pure reduce_inject_pure
        split: if_splits sum.splits prod.splits)
  from run have "map fst C' = map fst (s_collection s)" by (rule inject_all_keys)
  with s' show ?thesis by blast
qed

lemma cache_current_toOriginalFormat:
  assumes "cache_current s" and "fn_toOriginalFormat s ms = Inr (r, s')"
  shows "cache_current s'"
proof -
  from toOriginalFormat_collection [OF assms(2)] obtain C' where
    "s' = s\<lparr>s_collection := C'\<rparr> \<and> map fst C' = map fst (s_collection s)" ..
  then show ?thesis using assms(1) by (auto simp add: cache_current_def all_matched_def)
qed

lemma cache_current_updateMatches:
  assumes "rearranges hs" and "well_formed s" and "cache_current s"
    and "fn_updateMatches hs s = Inr s'"
  shows "cache_current s'"
proof (cases "s_complete s")
  case True
  then show ?thesis using assms by (simp add: fn_updateMatches_def)
next
  case False
  from assms(4) False obtain s1 where
    s1: "(if \<not> s_searched s then fn_performSearch s else Inr s) = Inr s1"
    by (auto simp add: fn_updateMatches_def split: sum.splits)
  have tc: "threshold_current s" using assms(2) by (simp add: well_formed_def)
  have c1: "cache_current s1"
  proof (cases "s_searched s")
    case True
    then show ?thesis using s1 assms(3) by simp
  next
    case nf: False
    then have "fn_performSearch s = Inr s1" using s1 by simp
    with tc show ?thesis using False by (rule cache_current_performSearch)
  qed
  have sr1: "s_searched s1"
  proof (cases "s_searched s")
    case True
    then show ?thesis using s1 by simp
  next
    case nf: False
    then have "fn_performSearch s = Inr s1" using s1 by simp
    from performSearch_result [OF this] show ?thesis by auto
  qed
  from assms(4) False s1 obtain s2 ms1 where
    p: "fn_performSort hs s1 (s_matches s1) = Inr (s2, ms1)"
    by (auto simp add: fn_updateMatches_def split: sum.splits)
  have c2: "cache_current s2"
    using c1 p by (rule cache_current_performSort)
  have m: "mset ms1 = mset (s_matches s1)"
    using assms(1) p by (rule performSort_permutes)
  have st: "s2 = s1 \<or> s2 = fn_updateConstraints s1"
    using p by (rule performSort_state)
  have b2: "s_matches s2 = s_matches s1" "s_allItems s2 = s_allItems s1" "s_searched s2 = s_searched s1"
    using st by (auto simp add: updateConstraints_buckets)
  from assms(4) False s1 p have s': 
    "s' = (set_matches s2 ms1)\<lparr>s_totalMatches := length (s_matches (set_matches s2 ms1)),
          s_index := 0, s_lastIndex := int (length (s_matches (set_matches s2 ms1))) - 1,
          s_complete := True\<rparr>"
    by (simp add: fn_updateMatches_def Let_def)
  show ?thesis
    using c2 m b2 sr1 unfolding s'
    by (auto simp add: cache_current_def all_matched_def set_matches_def)
qed

lemma cache_current_then:
  assumes "rearranges hs" and "well_formed s" and "cache_current s"
    and "sl_then hs s = Inr (out, s')"
  shows "cache_current s'"
proof -
  from assms(4) have "fn_updateMatches hs s = Inr s'"
    by (simp add: sl_then_def split: sum.splits)
  with assms(1-3) show ?thesis by (rule cache_current_updateMatches)
qed

lemma cache_current_length:
  assumes "rearranges hs" and "well_formed s" and "cache_current s"
    and "get_length hs s = Inr (n, s')"
  shows "cache_current s'"
proof -
  from assms(4) have "fn_updateMatches hs s = Inr s'"
    by (simp add: get_length_def split: sum.splits)
  with assms(1-3) show ?thesis by (rule cache_current_updateMatches)
qed

lemma cache_current_matches:
  assumes "rearranges hs" and "well_formed s" and "cache_current s"
    and "get_matches hs s = Inr (r, s')"
  shows "cache_current s'"
proof -
  from assms(4) obtain s1 where s1: "fn_updateMatches hs s = Inr s1"
    and f: "fn_toOriginalFormat s1 (s_matches s1) = Inr (r, s')"
    by (simp add: get_matches_def split: sum.splits)
  from assms(1-3) s1 have "cache_current s1" by (rule cache_current_updateMatches)
  then show ?thesis using f by (rule cache_current_toOriginalFormat)
qed

lemma cache_current_partialMatches:
  assumes "rearranges hs" and "well_formed s" and "cache_current s"
    and "get_partialMatches hs s = Inr (r, s')"
  shows "cache_current s'"
proof -
  from assms(4) obtain s1 where s1: "fn_updateMatches hs s = Inr s1"
    by (auto simp add: get_partialMatches_def split: sum.splits)
  have c1: "cache_current s1" using assms(1-3) s1 by (rule cache_current_updateMatches)
  from assms(4) s1 obtain s2 ms1 where p: "fn_performSort hs s1 (s_partial s1) = Inr (s2, ms1)"
    by (auto simp add: get_partialMatches_def split: sum.splits)
  have c2: "cache_current s2"
    using c1 p by (rule cache_current_performSort)
  have m: "mset ms1 = mset (s_partial s1)"
    using assms(1) p by (rule performSort_permutes)
  have st: "s2 = s1 \<or> s2 = fn_updateConstraints s1"
    using p by (rule performSort_state)
  have b2: "s_partial s2 = s_partial s1"
    using st by (auto simp add: updateConstraints_buckets)
  have "cache_current (s2\<lparr>s_partial := ms1\<rparr>)"
    using c2 m b2 by (auto simp add: cache_current_def all_matched_def)
  moreover have "fn_toOriginalFormat (s2\<lparr>s_partial := ms1\<rparr>) ms1 = Inr (r, s')"
    using assms(4) s1 p by (simp add: get_partialMatches_def)
  ultimately show ?thesis by (rule cache_current_toOriginalFormat)
qed

lemma cache_current_allMatches:
  assumes "rearranges hs" and "well_formed s" and "cache_current s"
    and "get_allMatches hs s = Inr (r, s')"
  shows "cache_current s'"
proof -
  from assms(4) obtain s1 where s1: "fn_updateMatches hs s = Inr s1"
    by (auto simp add: get_allMatches_def split: sum.splits)
  have c1: "cache_current s1" using assms(1-3) s1 by (rule cache_current_updateMatches)
  from assms(4) s1 obtain s2 ms1 where
    p: "fn_performSort hs s1 (s_matches s1 @ s_partial s1) = Inr (s2, ms1)"
    by (auto simp add: get_allMatches_def split: sum.splits)
  have "cache_current s2"
    using c1 p by (rule cache_current_performSort)
  moreover have "fn_toOriginalFormat s2 ms1 = Inr (r, s')"
    using assms(4) s1 p by (simp add: get_allMatches_def)
  ultimately show ?thesis by (rule cache_current_toOriginalFormat)
qed

lemma cache_current_allItems:
  assumes "rearranges hs" and "well_formed s" and "cache_current s"
    and "get_allItems hs s = Inr (r, s')"
  shows "cache_current s'"
proof -
  from assms(4) obtain s1 where s1: "fn_updateMatches hs s = Inr s1"
    by (auto simp add: get_allItems_def split: sum.splits)
  have c1: "cache_current s1" using assms(1-3) s1 by (rule cache_current_updateMatches)
  from assms(4) s1 obtain s2 ms1 where p: "fn_performSort hs s1 (s_allItems s1) = Inr (s2, ms1)"
    by (auto simp add: get_allItems_def split: sum.splits)
  have c2: "cache_current s2"
    using c1 p by (rule cache_current_performSort)
  have m: "mset ms1 = mset (s_allItems s1)"
    using assms(1) p by (rule performSort_permutes)
  have st: "s2 = s1 \<or> s2 = fn_updateConstraints s1"
    using p by (rule performSort_state)
  have b2: "s_allItems s2 = s_allItems s1"
    using st by (auto simp add: updateConstraints_buckets)
  have l: "length ms1 = length (s_allItems s1)" using m by (rule mset_eq_length)
  have "cache_current (set_allItems s2 ms1)"
    using c2 m l b2 by (auto simp add: cache_current_def all_matched_def set_allItems_def)
  moreover have "fn_toOriginalFormat (set_allItems s2 ms1) ms1 = Inr (r, s')"
    using assms(4) s1 p by (simp add: get_allItems_def)
  ultimately show ?thesis by (rule cache_current_toOriginalFormat)
qed

lemma cache_current_perform:
  assumes "rearranges hs" and "well_formed s" and "cache_current s"
    and "perform hs c s = Inr s'"
  shows "cache_current s'"
proof (cases c)
  case (For x) then show ?thesis using assms by (simp add: perform_def cache_current_for)
next
  case (And x) then show ?thesis using assms by (simp add: perform_def cache_current_and)
next
  case (In x) then show ?thesis using assms by (simp add: perform_def cache_current_in)
next
  case (Or x) then show ?thesis using assms by (simp add: perform_def cache_current_or)
next
  case Then
  then show ?thesis using assms
    by (auto simp add: perform_def state_of_def split: sum.splits dest: cache_current_then)
next
  case Length
  then show ?thesis using assms
    by (auto simp add: perform_def state_of_def split: sum.splits dest: cache_current_length)
next
  case Matches
  then show ?thesis using assms
    by (auto simp add: perform_def state_of_def split: sum.splits dest: cache_current_matches)
next
  case PartialMatches
  then show ?thesis using assms
    by (auto simp add: perform_def state_of_def split: sum.splits dest: cache_current_partialMatches)
next
  case AllMatches
  then show ?thesis using assms
    by (auto simp add: perform_def state_of_def split: sum.splits dest: cache_current_allMatches)
next
  case AllItems
  then show ?thesis using assms
    by (auto simp add: perform_def state_of_def split: sum.splits dest: cache_current_allItems)
qed (use assms in \<open>auto simp add: perform_def cache_current_settings\<close>)

lemma cache_current_perform_all:
  "rearranges hs \<Longrightarrow> well_formed s \<Longrightarrow> cache_current s \<Longrightarrow> perform_all hs cs s = Inr s' \<Longrightarrow>
   cache_current s'"
proof (induction cs arbitrary: s)
  case Nil
  then show ?case by simp
next
  case (Cons c cs)
  from Cons.prems(4) obtain s1 where p: "perform hs c s = Inr s1"
    and rest: "perform_all hs cs s1 = Inr s'"
    by (auto split: sum.splits)
  have "well_formed s1" using Cons.prems(2) p by (rule well_formed_perform)
  moreover have "cache_current s1" using Cons.prems(1-3) p by (rule cache_current_perform)
  ultimately show ?case using Cons.IH [OF Cons.prems(1) _ _ rest] by simp
qed

lemma reachable_cache_current:
  assumes "rearranges hs" and "reachable hs s"
  shows "cache_current s"
proof -
  from assms(2) obtain collection cs s0 where s0: "search collection = Inr s0"
    and run: "perform_all hs cs s0 = Inr s"
    unfolding reachable_def by blast
  show ?thesis
    using assms(1) well_formed_search [OF s0] cache_current_search [OF s0] run
    by (rule cache_current_perform_all)
qed

lemma searched_unconstrained_update:
  assumes "threshold_current s" and "cache_current s" and "s_filters s = []"
    and "s_searchText s = []" and "s_searched s" and "o_customSort s = Sort_value JNull"
  shows "\<exists>s1. fn_updateMatches hs s = Inr s1 \<and> s_complete s1 \<and> s_ready s1 \<and>
     s_searchTerms s1 = [] \<and> s_filters s1 = [] \<and> o_customSort s1 = Sort_value JNull \<and>
     o_inject_enabled s1 = o_inject_enabled s \<and> o_collectionType s1 = o_collectionType s \<and>
     s_collection s1 = s_collection s \<and>
     s_matches s1 = s_matches s \<and> s_allItems s1 = s_matches s \<and> s_partial s1 = [] \<and>
     s_totalMatches s1 = length (s_matches s)"
proof -
  have am: "all_matched s" using assms(2,3,4,5) by (simp add: cache_current_def)
  then have f: "s_ready s" "s_shared s" "s_matches s = s_allItems s" "s_partial s = []"
    by (simp_all add: all_matched_def)
  have terms: "s_searchTerms s = []"
    using assms(1,4) f(1) by (simp add: threshold_current_def)
  show ?thesis
  proof (cases "s_complete s")
    case True
    then have "s_totalMatches s = length (s_matches s)"
      using assms(2) by (simp add: cache_current_def)
    moreover have "fn_updateMatches hs s = Inr s" using True by (simp add: fn_updateMatches_def)
    ultimately show ?thesis using True f terms assms(3,6) by simp
  next
    case False
    have sort: "fn_performSort hs s (s_matches s) = Inr (s, s_matches s)"
      using f(1) terms assms(3,6) by (rule settled_performSort)
    have set: "set_matches s (s_matches s) = s" using f(2,3) by (simp add: set_matches_def)
    have "fn_updateMatches hs s =
      Inr (s\<lparr>s_totalMatches := length (s_matches s), s_index := 0,
               s_lastIndex := int (length (s_matches s)) - 1, s_complete := True\<rparr>)"
      using False assms(5) by (simp add: fn_updateMatches_def sort set Let_def)
    then show ?thesis using f terms assms(3,6) by simp
  qed
qed

lemma unconstrained_update:
  assumes "threshold_current s" and "cache_current s" and "s_filters s = []"
    and "s_searchText s = []" and "o_customSort s = Sort_value JNull"
  shows "\<exists>s1 all. fn_updateMatches hs s = Inr s1 \<and> s_complete s1 \<and> s_ready s1 \<and>
     s_searchTerms s1 = [] \<and> s_filters s1 = [] \<and> o_customSort s1 = Sort_value JNull \<and>
     o_inject_enabled s1 = o_inject_enabled s \<and> o_collectionType s1 = o_collectionType s \<and>
     s_collection s1 = s_collection s \<and>
     s_matches s1 = all \<and> s_allItems s1 = all \<and> s_partial s1 = [] \<and>
     s_totalMatches s1 = length (s_collection s) \<and>
     mset all = mset (map i_emptyMatch (map fst (s_collection s))) \<and>
     (\<not> s_searched s \<longrightarrow> all = map i_emptyMatch (map fst (s_collection s)))"
proof (cases "s_searched s")
  case True
  have "all_matched s" using assms(2,3,4) True by (simp add: cache_current_def)
  then have m: "mset (s_matches s) = mset (map i_emptyMatch (map fst (s_collection s)))"
    by (simp add: all_matched_def)
  from mset_eq_length [OF m] have l: "length (s_matches s) = length (s_collection s)" by simp
  from searched_unconstrained_update [OF assms(1-4) True assms(5), of hs]
  show ?thesis using True m l by (auto simp del: mset_map)
next
  case False
  then have nc: "\<not> s_complete s" using assms(2) by (auto simp add: cache_current_def)
  from fresh_unconstrained_update [OF assms(1,3,4) False nc assms(5), of hs]
  show ?thesis by auto
qed

text \<open>
  C3, as the code has it. Take any instance with no filter and no search text on which
  no custom sort is set (\<^verbatim>\<open>customSort\<close> is \<^verbatim>\<open>null\<close>), whatever was called on it
  before, with statistics injected or not. The search returns without looking at any
  item: \<^verbatim>\<open>allItems\<close> and \<^verbatim>\<open>matches\<close> are the empty match (relevance 0, nothing
  missing) of every key, and \<^verbatim>\<open>partial\<close> is empty. Updating the matches returns, the
  matches are those of all the keys, each once, all of relevance 0, and \<^verbatim>\<open>length\<close> is
  the number of items. The accessors \<^verbatim>\<open>matches\<close>, \<^verbatim>\<open>allMatches\<close> and \<^verbatim>\<open>allItems\<close>
  all do the same: each returns what the formatter makes of those matches. On an
  instance that was not searched yet the matches are in the collection's order. Without
  injection the three accessors return one result, read first or read again in any
  order; for an array it is an array of all the items.
\<close>

theorem unconstrained_everything_matches:
  assumes "reachable hs s" and "rearranges hs" and "s_filters s = []" and "s_searchText s = []"
    and "o_customSort s = Sort_value JNull"
  shows "\<exists>s1.
     fn_performSearch s =
       Inr ((fn_updateConstraints s)\<lparr>s_allItems := map i_emptyMatch (map fst (s_collection s)),
              s_matches := map i_emptyMatch (map fst (s_collection s)),
              s_shared := True, s_partial := [], s_searched := True\<rparr>) \<and>
     fn_updateMatches hs s = Inr s1 \<and>
     mset (s_matches s1) = mset (map i_emptyMatch (map fst (s_collection s))) \<and>
     (\<forall>m \<in> set (s_matches s1). m_relevance m = 0 \<and> m_missing m = []) \<and>
     s_allItems s1 = s_matches s1 \<and> s_partial s1 = [] \<and>
     (\<not> s_searched s \<longrightarrow> s_matches s1 = map i_emptyMatch (map fst (s_collection s))) \<and>
     get_length hs s = Inr (length (s_collection s), s1) \<and>
     get_matches hs s = fn_toOriginalFormat s1 (s_matches s1) \<and>
     get_allMatches hs s = get_matches hs s \<and>
     get_allItems hs s = get_matches hs s \<and>
     (\<not> o_inject_enabled s \<longrightarrow>
        (\<exists>r. get_matches hs s = Inr (r, s1) \<and>
           get_matches hs s1 = Inr (r, s1) \<and> get_allMatches hs s1 = Inr (r, s1) \<and>
           get_allItems hs s1 = Inr (r, s1) \<and>
           (o_collectionType s = ''array'' \<longrightarrow>
              (\<exists>xs. r = JArr xs \<and> mset xs = mset (map snd (s_collection s)))) \<and>
           (\<not> s_searched s \<and> o_collectionType s = ''array'' \<longrightarrow>
              r = JArr (map snd (s_collection s)))))"
proof -
  let ?all = "map i_emptyMatch (map fst (s_collection s))"
  have wf: "well_formed s" using assms(1) by (rule reachable_well_formed)
  then have tc: "threshold_current s" and d: "distinct (map fst (s_collection s))"
    by (simp_all add: well_formed_def)
  have cc: "cache_current s" using assms(2,1) by (rule reachable_cache_current)
  from unconstrained_update [OF tc cc assms(3-5), of hs]
  obtain s1 all where u: "fn_updateMatches hs s = Inr s1"
    and f: "s_complete s1" "s_ready s1" "s_searchTerms s1 = []" "s_filters s1 = []"
      "o_customSort s1 = Sort_value JNull" "o_inject_enabled s1 = o_inject_enabled s"
      "o_collectionType s1 = o_collectionType s" "s_collection s1 = s_collection s"
      "s_matches s1 = all" "s_allItems s1 = all" "s_partial s1 = []"
      "s_totalMatches s1 = length (s_collection s)"
    and m: "mset all = mset ?all"
    and fresh: "\<not> s_searched s \<longrightarrow> all = ?all"
    by blast
  note acc = settled_accessors [OF f(1-5) f(9,10,11)]
  have u1: "fn_updateMatches hs s1 = Inr s1" using f(1) by (simp add: fn_updateMatches_def)
  have same: "get_matches hs s = get_matches hs s1" "get_allMatches hs s = get_allMatches hs s1"
    "get_allItems hs s = get_allItems hs s1"
    by (simp_all add: get_matches_def get_allMatches_def get_allItems_def u u1)
  have len: "get_length hs s = Inr (length (s_collection s), s1)"
    by (simp add: get_length_def u f(12))
  have ps: "fn_performSearch s =
       Inr ((fn_updateConstraints s)\<lparr>s_allItems := ?all, s_matches := ?all,
              s_shared := True, s_partial := [], s_searched := True\<rparr>)"
    using tc assms(3,4) by (rule unconstrained_performSearch)
  have b: "mset (s_matches s1) = mset ?all" "s_allItems s1 = s_matches s1" "s_partial s1 = []"
    using f(9,10,11) m by simp_all
  have "set (s_matches s1) = set ?all" using b(1) by (rule mset_eq_setD)
  then have zero: "\<forall>m \<in> set (s_matches s1). m_relevance m = 0 \<and> m_missing m = []"
    by (auto simp add: i_emptyMatch_def)
  have fr: "\<not> s_searched s \<longrightarrow> s_matches s1 = ?all" using fresh f(9) by simp
  have g1: "get_matches hs s = fn_toOriginalFormat s1 (s_matches s1)"
    by (simp only: same acc(1) f(9))
  have g2: "get_allMatches hs s = get_matches hs s" by (simp only: same acc(1,2))
  have g3: "get_allItems hs s = get_matches hs s" by (simp only: same acc(1,3))
  have plain: "\<exists>r. get_matches hs s = Inr (r, s1) \<and>
           get_matches hs s1 = Inr (r, s1) \<and> get_allMatches hs s1 = Inr (r, s1) \<and>
           get_allItems hs s1 = Inr (r, s1) \<and>
           (o_collectionType s = ''array'' \<longrightarrow>
              (\<exists>xs. r = JArr xs \<and> mset xs = mset (map snd (s_collection s)))) \<and>
           (\<not> s_searched s \<and> o_collectionType s = ''array'' \<longrightarrow>
              r = JArr (map snd (s_collection s)))"
    if ni: "\<not> o_inject_enabled s"
  proof -
    have ni1: "\<not> o_inject_enabled s1" using f(6) ni by simp
    with acc(4) obtain r where r: "fn_toOriginalFormat s1 all = Inr (r, s1)"
      and ra: "o_collectionType s1 = ''array'' \<longrightarrow> r = JArr (map (fn_getItem s1) all)"
      by blast
    have items: "map (fn_getItem s1) ?all = map snd (s_collection s)"
      using all_items_formatted [of s1] d by (simp only: f(8))
    have "mset (map (fn_getItem s1) all) = image_mset (fn_getItem s1) (mset all)" by simp
    also have "\<dots> = image_mset (fn_getItem s1) (mset ?all)" by (simp only: m)
    also have "\<dots> = mset (map (fn_getItem s1) ?all)" by (simp only: mset_map)
    finally have perm: "mset (map (fn_getItem s1) all) = mset (map snd (s_collection s))"
      by (simp only: items)
    have arr: "o_collectionType s = ''array'' \<longrightarrow>
        (\<exists>xs. r = JArr xs \<and> mset xs = mset (map snd (s_collection s)))"
      using ra perm by (simp only: f(7)) blast
    have ord: "\<not> s_searched s \<and> o_collectionType s = ''array'' \<longrightarrow>
        r = JArr (map snd (s_collection s))"
    proof
      assume a: "\<not> s_searched s \<and> o_collectionType s = ''array''"
      with fresh have e: "all = ?all" by simp
      from a ra have "r = JArr (map (fn_getItem s1) all)" by (simp only: f(7))
      then show "r = JArr (map snd (s_collection s))" by (simp only: e items)
    qed
    have g: "get_matches hs s1 = Inr (r, s1)" "get_allMatches hs s1 = Inr (r, s1)"
      "get_allItems hs s1 = Inr (r, s1)"
      using acc(1-3) r by simp_all
    have g0: "get_matches hs s = Inr (r, s1)" by (simp only: same g)
    from g0 g arr ord show ?thesis by blast
  qed
  show ?thesis
    apply (intro exI [of _ s1] conjI)
    apply (rule ps)
    apply (rule u)
    apply (rule b(1))
    apply (rule zero)
    apply (rule b(2))
    apply (rule b(3))
    apply (rule fr)
    apply (rule len)
    apply (rule g1)
    apply (rule g2)
    apply (rule g3)
    using plain apply blast
    done
qed

theorem unconstrained_everything_matches_witness:
  "result_of (and_then (search (JArr [JStr ''x'', JStr ''y''])) (get_matches insertion_sort))
     = Inr (JArr [JStr ''x'', JStr ''y'']) \<and>
   result_of (and_then (search (JArr [JStr ''x'', JStr ''y''])) (get_allMatches insertion_sort))
     = Inr (JArr [JStr ''x'', JStr ''y'']) \<and>
   result_of (and_then (search (JArr [JStr ''x'', JStr ''y''])) (get_allItems insertion_sort))
     = Inr (JArr [JStr ''x'', JStr ''y''])"
proof -
  from on_result_Inr [OF two_texts_collection]
  obtain s where sc: "search (JArr [JStr ''x'', JStr ''y'']) = Inr s \<and>
      (o_collectionType s, map snd (s_collection s)) = (''array'', [JStr ''x'', JStr ''y''])" ..
  then have s: "search (JArr [JStr ''x'', JStr ''y'']) = Inr s"
    and t: "o_collectionType s = ''array''"
    and c: "map snd (s_collection s) = [JStr ''x'', JStr ''y'']"
    by simp_all
  from search_fresh [OF s] have fr: "s_filters s = []" "s_searchText s = []" "\<not> s_searched s"
    "o_customSort s = Sort_value JNull" "\<not> o_inject_enabled s"
    by simp_all
  from unconstrained_everything_matches
    [OF search_reachable [OF s] rearranges_insertion_sort fr(1,2,4)]
  obtain s1 where
    a: "get_allMatches insertion_sort s = get_matches insertion_sort s"
    and b: "get_allItems insertion_sort s = get_matches insertion_sort s"
    and p: "\<not> o_inject_enabled s \<longrightarrow>
        (\<exists>r. get_matches insertion_sort s = Inr (r, s1) \<and>
           get_matches insertion_sort s1 = Inr (r, s1) \<and>
           get_allMatches insertion_sort s1 = Inr (r, s1) \<and>
           get_allItems insertion_sort s1 = Inr (r, s1) \<and>
           (o_collectionType s = ''array'' \<longrightarrow>
              (\<exists>xs. r = JArr xs \<and> mset xs = mset (map snd (s_collection s)))) \<and>
           (\<not> s_searched s \<and> o_collectionType s = ''array'' \<longrightarrow>
              r = JArr (map snd (s_collection s))))"
    by blast
  from p fr(3,5) t obtain r where "get_matches insertion_sort s = Inr (r, s1)"
    and "r = JArr (map snd (s_collection s))"
    by blast
  then have "get_matches insertion_sort s = Inr (JArr [JStr ''x'', JStr ''y''], s1)"
    by (simp only: c)
  then show ?thesis by (simp add: s a b and_then_def result_of_def)
qed

text \<open>
  C3 as the claim states it (for every instance with no filter and no search term the
  three accessors agree) fails once a custom sort is set. After
  \<^verbatim>\<open>search(['x', 'y']).sortUsing((getItem, a, b) => -1)\<close>, under the insertion sort
  above, \<^verbatim>\<open>matches\<close> sorts the array that it shares with \<^verbatim>\<open>allItems\<close> and returns
  \<^verbatim>\<open>['y', 'x']\<close>, and \<^verbatim>\<open>allMatches\<close> sorts a copy of that array once more and returns
  \<^verbatim>\<open>['x', 'y']\<close>.
\<close>

theorem custom_sort_accessors_differ:
  "result_of (and_then (on_result (sl_sortUsing (Sort_function first_before))
                          (search (JArr [JStr ''x'', JStr ''y''])))
                (get_matches insertion_sort)) = Inr (JArr [JStr ''y'', JStr ''x'']) \<and>
   result_of (and_then (on_result (sl_sortUsing (Sort_function first_before))
                          (search (JArr [JStr ''x'', JStr ''y''])))
                (get_allMatches insertion_sort)) = Inr (JArr [JStr ''x'', JStr ''y''])"
  by code_simp

end
